theory Spec2Isabelle
  imports Main "HOL-Library.AList" "HOL-Library.Sublist"
begin

section \<open>Data model of \<open>target_s3_csv/__init__.py\<close>\<close>

text \<open>
  The target reads singer messages line by line, keeps per-stream dictionaries
  (\<open>schemas\<close>, \<open>key_properties\<close>, \<open>headers\<close>, \<open>validators\<close>, \<open>filenames\<close>,
  \<open>record_counter\<close>) and the last \<open>state\<close>, appends one CSV row per RECORD to a
  staging file, and after the loop rewrites every staging file with a header line in front.

  Conventions of the embedding:
  \<^item> a text file is the list of the lines that reading it in text mode gives (universal
    newlines: a line feed, a carriage return, or the two in this order end a line), without
    the terminators; a write adds the lines of the text written, \<open>split_text\<close>; a file
    of size 0 is the empty list;
  \<^item> the file system is a map from paths to files; a missing file is \<open>None\<close>;
  \<^item> a Python value that may be \<open>None\<close> is an \<open>option\<close>;
  \<^item> a dictionary whose iteration order the code relies on (\<open>filenames\<close>,
    \<open>record_counter\<close>, the \<open>OrderedDict\<close> of headers) is a list in insertion order;
  \<^item> \<open>'r\<close> is what a RECORD message carries besides its stream (the record, with the
    version and extraction time singer attaches), \<open>'s\<close> a schema and \<open>'v\<close> a state
    value other than \<open>None\<close>. They are left abstract: the code only hands them to
    collaborators (\<open>utils\<close>, \<open>jsonschema\<close>, \<open>json\<close>, \<open>csv\<close>, \<open>os.path\<close>),
    which are parameters of the model, collected in \<open>env\<close>;
  \<^item> a flattened record is the ordered list of its (column, text) pairs;
  \<^item> the exceptions of the model are the ones the code raises or lets through by name, and
    the two lookups of the finalizer that can fail; failures inside the collaborators
    (disk, network) are not part of it.
\<close>

type_synonym stream_name = string
type_synonym path = string
type_synonym flat_record = "(string \<times> string) list"
type_synonym text_file = "string list"
type_synonym filesystem = "path \<Rightarrow> text_file option"

datatype ('r, 's, 'v) message =
    RECORD stream_name 'r
  | STATE "'v option"
  | SCHEMA stream_name 's "string list"
  | ACTIVATE_VERSION
  | UNKNOWN string

text \<open>
  One input line, as \<open>singer.parse_message(message).asdict()\<close> sees it: either the JSON
  decoder raises, or a message comes back.
\<close>

datatype ('r, 's, 'v) input_line =
    Unparseable string
  | Parsed "('r, 's, 'v) message"

text \<open>The outcome of \<open>validators[stream_name].validate(...)\<close> inside the \<open>try\<close>.\<close>

datatype verdict = Valid | Raises_InvalidOperation | Raises_other

datatype error =
    JSONDecodeError string
  | Record_before_schema stream_name
  | InvalidOperation
  | FileNotFoundError path
  | KeyError stream_name

text \<open>The calls of \<open>logger\<close> that \<open>persist_messages\<close> makes.\<close>

datatype 'v log_call =
    Error_unable_to_parse string
  | Error_data_validation_failed
  | Debug_setting_state "'v option"
  | Debug_activate_version
  | Warning_unknown_message_type string
  | Info_metric stream_name "nat option"

record config =
  delimiter :: "string option"
  quotechar :: "string option"
  add_metadata_columns :: bool

record file_meta =
  filename :: path
  target_key :: string

text \<open>
  The collaborators that are not part of \<open>__init__.py\<close>: \<open>temp_path name\<close> stands for
  \<open>os.path.expanduser(os.path.join(temp_dir, name))\<close>, \<open>now\<close> for the timestamp taken
  at the start of the run, \<open>validate\<close> for a compiled \<open>Draft7Validator\<close> applied to a
  record, \<open>csv_first_row\<close> for \<open>next(csv.reader(f, delimiter, quotechar))\<close> and
  \<open>csv_row\<close> for the text \<open>csv.writer(f, delimiter, quotechar).writerow(fields)\<close> emits
  before the line terminator of the dialect, which is carriage return and line feed.
\<close>

record ('r, 's, 'v) env =
  config :: config
  validate_config :: "config \<Rightarrow> string list"
  temp_path :: "string \<Rightarrow> path"
  now :: string
  validate :: "'s \<Rightarrow> 'r \<Rightarrow> verdict"
  add_metadata_values_to_record :: "'r \<Rightarrow> 'r"
  remove_metadata_values_from_record :: "'r \<Rightarrow> 'r"
  add_metadata_columns_to_schema :: "stream_name \<Rightarrow> 's \<Rightarrow> string list \<Rightarrow> 's"
  flatten_record :: "'r \<Rightarrow> flat_record"
  get_target_key :: "stream_name \<Rightarrow> 'r \<Rightarrow> string"
  csv_first_row :: "string \<Rightarrow> string \<Rightarrow> text_file \<Rightarrow> string list"
  csv_row :: "string \<Rightarrow> string \<Rightarrow> string list \<Rightarrow> string"
  json_dumps :: "'v \<Rightarrow> string"

text \<open>
  The local variables of \<open>persist_messages\<close>, with the effects the run has on the outside
  world: the files under the temp directory, the logger calls, and the metadata handed to
  \<open>s3.upload_files\<close>.
\<close>

record ('s, 'v) run_state =
  state :: "'v option"
  schemas :: "stream_name \<Rightarrow> 's option"
  key_properties :: "stream_name \<Rightarrow> string list option"
  headers :: "stream_name \<Rightarrow> string list option"
  validators :: "stream_name \<Rightarrow> 's option"
  filenames :: "(stream_name \<times> file_meta) list"
  record_counter :: "(stream_name \<times> nat) list"
  files :: filesystem
  logged :: "'v log_call list"
  uploaded :: "file_meta list"

type_synonym ('s, 'v) step_result = "(error \<times> ('s, 'v) run_state) + ('s, 'v) run_state"

section \<open>Header reconciliation\<close>

text \<open>\<open>merged_sorted_headers[header] = None\<close> on the keys of an \<open>OrderedDict\<close>.\<close>

definition od_set :: "string list \<Rightarrow> string \<Rightarrow> string list" where
  "od_set ks k = (if k \<in> set ks then ks else ks @ [k])"

text \<open>\<open>for header in hs: merged_sorted_headers[header] = None\<close>.\<close>

definition od_set_all :: "string list \<Rightarrow> string list \<Rightarrow> string list" where
  "od_set_all ks hs = foldl od_set ks hs"

definition get_delimiter :: "config \<Rightarrow> string" where
  "get_delimiter c = (case delimiter c of None \<Rightarrow> '','' | Some d \<Rightarrow> d)"

definition get_quotechar :: "config \<Rightarrow> string" where
  "get_quotechar c = (case quotechar c of None \<Rightarrow> [CHR 0x22] | Some q \<Rightarrow> q)"

text \<open>\<open>(not os.path.isfile(filename)) or os.stat(filename).st_size == 0\<close>.\<close>

definition file_is_empty :: "filesystem \<Rightarrow> path \<Rightarrow> bool" where
  "file_is_empty fs p = (case fs p of None \<Rightarrow> True | Some ls \<Rightarrow> ls = [])"

text \<open>
  Lines 110 to 136: the new value of \<open>headers[stream_name]\<close>. The first branch reads the
  first row of a staging file that already has content when the stream has no header set
  in memory; the second starts from the header set in memory, if there is one.
\<close>

definition reconcile ::
  "('r, 's, 'v) env \<Rightarrow> (stream_name \<Rightarrow> string list option) \<Rightarrow> filesystem \<Rightarrow>
     stream_name \<Rightarrow> path \<Rightarrow> flat_record \<Rightarrow> string list" where
  "reconcile e hdrs fs s f flattened_record =
     (if hdrs s = None \<and> \<not> file_is_empty fs f then
        (let first_line = (case fs f of None \<Rightarrow> [] | Some ls \<Rightarrow>
                             csv_first_row e (get_delimiter (config e)) (get_quotechar (config e)) ls);
             merged_sorted_headers = od_set_all [] first_line
         in od_set_all merged_sorted_headers (map fst flattened_record))
      else
        (let merged_sorted_headers = (case hdrs s of None \<Rightarrow> [] | Some h \<Rightarrow> od_set_all [] h)
         in od_set_all merged_sorted_headers (map fst flattened_record)))"

section \<open>The message loop\<close>

definition record_to_load :: "('r, 's, 'v) env \<Rightarrow> 'r \<Rightarrow> 'r" where
  "record_to_load e r =
     (if add_metadata_columns (config e) then add_metadata_values_to_record e r
      else remove_metadata_values_from_record e r)"

definition staging_filename :: "('r, 's, 'v) env \<Rightarrow> stream_name \<Rightarrow> path" where
  "staging_filename e s = temp_path e (s @ ''-'' @ now e @ ''.csv'')"

text \<open>\<open>DictWriter._dict_to_list\<close> with \<open>extrasaction='ignore'\<close> and the default \<open>restval=''\<close>.\<close>

definition dict_to_list :: "string list \<Rightarrow> flat_record \<Rightarrow> string list" where
  "dict_to_list fieldnames row =
     map (\<lambda>k. case map_of row k of None \<Rightarrow> [] | Some v \<Rightarrow> v) fieldnames"

text \<open>
  The lines of a text, as iterating over a file opened in text mode gives them. A value with
  a line break inside makes the row or the header it is part of take more than one line.
  Texts are written as they are (\<open>os.linesep\<close> is a line feed).
\<close>

function split_text :: "string \<Rightarrow> string list" where
  "split_text [] = []"
| "split_text (c # cs) =
     (if c = CHR 0x0A then [] # split_text cs
      else if c = CHR 0x0D then
        [] # split_text (case cs of [] \<Rightarrow> [] | d # ds \<Rightarrow> if d = CHR 0x0A then ds else cs)
      else (case split_text cs of [] \<Rightarrow> [[c]] | l # ls \<Rightarrow> (c # l) # ls))"
  by pat_completeness auto
termination
  by (relation "measure length") (auto split: list.splits)

text \<open>\<open>write(t)\<close> on a file opened with mode \<open>'a'\<close>, where \<open>t\<close> ends with a terminator.\<close>

definition append_text :: "filesystem \<Rightarrow> path \<Rightarrow> string \<Rightarrow> filesystem" where
  "append_text fs p t = fs(p \<mapsto> (case fs p of None \<Rightarrow> [] | Some ls \<Rightarrow> ls) @ split_text t)"

definition counter_value :: "(stream_name \<times> nat) list \<Rightarrow> stream_name \<Rightarrow> nat" where
  "counter_value rc s = (case map_of rc s of None \<Rightarrow> 0 | Some n \<Rightarrow> n)"

text \<open>Lines 148 to 150.\<close>

definition count_record :: "(stream_name \<times> nat) list \<Rightarrow> stream_name \<Rightarrow> (stream_name \<times> nat) list" where
  "count_record rc s =
     (let rc0 = (if map_of rc s = None then AList.update s 0 rc else rc)
      in AList.update s (counter_value rc0 s + 1) rc0)"

text \<open>
  The validation of lines 77 to 84. A missing validator would raise \<open>KeyError\<close> inside the
  \<open>try\<close>, which the \<open>except Exception\<close> clause catches like any other exception.
\<close>

definition validation :: "('r, 's, 'v) env \<Rightarrow> ('s, 'v) run_state \<Rightarrow> stream_name \<Rightarrow> 'r \<Rightarrow> verdict" where
  "validation e \<sigma> s r = (case validators \<sigma> s of None \<Rightarrow> Raises_other | Some sch \<Rightarrow> validate e sch r)"

text \<open>Lines 86 to 152: a RECORD that has passed the schema check and the validation.\<close>

definition persist_record ::
  "('r, 's, 'v) env \<Rightarrow> ('s, 'v) run_state \<Rightarrow> stream_name \<Rightarrow> 'r \<Rightarrow> ('s, 'v) run_state" where
  "persist_record e \<sigma> s r =
     (let fns = (if map_of (filenames \<sigma>) s = None
                 then filenames \<sigma> @ [(s, \<lparr>filename = staging_filename e s, target_key = get_target_key e s r\<rparr>)]
                 else filenames \<sigma>);
          f = (case map_of fns s of None \<Rightarrow> staging_filename e s | Some m \<Rightarrow> filename m);
          flattened_record = flatten_record e (record_to_load e r);
          h = reconcile e (headers \<sigma>) (files \<sigma>) s f flattened_record;
          line = csv_row e (get_delimiter (config e)) (get_quotechar (config e))
                   (dict_to_list h flattened_record)
      in \<sigma>\<lparr>filenames := fns,
            headers := (headers \<sigma>)(s \<mapsto> h),
            record_counter := count_record (record_counter \<sigma>) s,
            files := append_text (files \<sigma>) f (line @ [CHR 0x0D, CHR 0x0A])\<rparr>)"

fun handle_message ::
  "('r, 's, 'v) env \<Rightarrow> ('s, 'v) run_state \<Rightarrow> ('r, 's, 'v) message \<Rightarrow> ('s, 'v) step_result" where
  "handle_message e \<sigma> (RECORD s r) =
     (if schemas \<sigma> s = None then Inl (Record_before_schema s, \<sigma>)
      else (case validation e \<sigma> s r of
              Raises_InvalidOperation \<Rightarrow>
                Inl (InvalidOperation, \<sigma>\<lparr>logged := logged \<sigma> @ [Error_data_validation_failed]\<rparr>)
            | Raises_other \<Rightarrow> Inr (persist_record e \<sigma> s r)
            | Valid \<Rightarrow> Inr (persist_record e \<sigma> s r)))"
| "handle_message e \<sigma> (STATE v) =
     Inr (\<sigma>\<lparr>logged := logged \<sigma> @ [Debug_setting_state v], state := v\<rparr>)"
| "handle_message e \<sigma> (SCHEMA s sch kp) =
     Inr (\<sigma>\<lparr>schemas := (schemas \<sigma>)(s \<mapsto>
                 (if add_metadata_columns (config e) then add_metadata_columns_to_schema e s sch kp else sch)),
             validators := (validators \<sigma>)(s \<mapsto> sch),
             key_properties := (key_properties \<sigma>)(s \<mapsto> kp)\<rparr>)"
| "handle_message e \<sigma> ACTIVATE_VERSION =
     Inr (\<sigma>\<lparr>logged := logged \<sigma> @ [Debug_activate_version]\<rparr>)"
| "handle_message e \<sigma> (UNKNOWN t) =
     Inr (\<sigma>\<lparr>logged := logged \<sigma> @ [Warning_unknown_message_type t]\<rparr>)"

definition handle_line ::
  "('r, 's, 'v) env \<Rightarrow> ('s, 'v) run_state \<Rightarrow> ('r, 's, 'v) input_line \<Rightarrow> ('s, 'v) step_result" where
  "handle_line e \<sigma> l =
     (case l of
        Unparseable raw \<Rightarrow> Inl (JSONDecodeError raw, \<sigma>\<lparr>logged := logged \<sigma> @ [Error_unable_to_parse raw]\<rparr>)
      | Parsed m \<Rightarrow> handle_message e \<sigma> m)"

text \<open>\<open>for message in messages\<close>: the first exception ends the loop.\<close>

fun message_loop ::
  "('r, 's, 'v) env \<Rightarrow> ('s, 'v) run_state \<Rightarrow> ('r, 's, 'v) input_line list \<Rightarrow> ('s, 'v) step_result" where
  "message_loop e \<sigma> [] = Inr \<sigma>"
| "message_loop e \<sigma> (l # ls) =
     (case handle_line e \<sigma> l of Inl err \<Rightarrow> Inl err | Inr \<sigma>' \<Rightarrow> message_loop e \<sigma>' ls)"

section \<open>Finalizer, publisher and the top level\<close>

fun join :: "string \<Rightarrow> string list \<Rightarrow> string" where
  "join sep [] = []"
| "join sep [x] = x"
| "join sep (x # y # ys) = x @ sep @ join sep (y # ys)"

text \<open>
  Lines 174 to 181, over \<open>filenames.items()\<close>. The old file is opened for reading first
  (a missing file raises), then unlinked and recreated; \<open>headers[stream_name]\<close> is looked
  up after the new file has been created empty.
\<close>

fun add_headers ::
  "(stream_name \<times> file_meta) list \<Rightarrow> ('s, 'v) run_state \<Rightarrow> ('s, 'v) step_result" where
  "add_headers [] \<sigma> = Inr \<sigma>"
| "add_headers ((s, m) # rest) \<sigma> =
     (case files \<sigma> (filename m) of
        None \<Rightarrow> Inl (FileNotFoundError (filename m), \<sigma>)
      | Some data_no_header \<Rightarrow>
          (case headers \<sigma> s of
             None \<Rightarrow> Inl (KeyError s, \<sigma>\<lparr>files := (files \<sigma>)(filename m \<mapsto> [])\<rparr>)
           | Some h \<Rightarrow>
               add_headers rest
                 (\<sigma>\<lparr>files := (files \<sigma>)(filename m \<mapsto>
                      split_text (join '','' h @ [CHR 0x0A]) @ data_no_header)\<rparr>)))"

definition print_metric :: "(stream_name \<times> nat) list \<Rightarrow> stream_name \<Rightarrow> 'v log_call" where
  "print_metric rc s = Info_metric s (map_of rc s)"

definition initial_state :: "filesystem \<Rightarrow> ('s, 'v) run_state" where
  "initial_state fs =
     \<lparr>state = None, schemas = Map.empty, key_properties = Map.empty, headers = Map.empty,
      validators = Map.empty, filenames = [], record_counter = [], files = fs,
      logged = [], uploaded = []\<rparr>"

text \<open>
  \<open>persist_messages\<close>: the loop, the finalizer, the call of \<open>s3.upload_files\<close> on
  \<open>filenames.values()\<close>, the metrics, and the returned state. The run state that comes
  back with the result holds the files as they are handed to the publisher.
\<close>

definition persist_messages ::
  "('r, 's, 'v) env \<Rightarrow> filesystem \<Rightarrow> ('r, 's, 'v) input_line list \<Rightarrow>
     (error \<times> ('s, 'v) run_state) + ('v option \<times> ('s, 'v) run_state)" where
  "persist_messages e fs messages =
     (case message_loop e (initial_state fs) messages of
        Inl err \<Rightarrow> Inl err
      | Inr \<sigma> \<Rightarrow>
          (case add_headers (filenames \<sigma>) \<sigma> of
             Inl err \<Rightarrow> Inl err
           | Inr \<sigma>' \<Rightarrow>
               Inr (state \<sigma>',
                    \<sigma>'\<lparr>uploaded := map snd (filenames \<sigma>'),
                        logged := logged \<sigma>' @
                          map (\<lambda>s. print_metric (record_counter \<sigma>') s) (map fst (record_counter \<sigma>'))\<rparr>)))"

definition emit_state :: "('r, 's, 'v) env \<Rightarrow> 'v option \<Rightarrow> string list" where
  "emit_state e st = (case st of None \<Rightarrow> [] | Some v \<Rightarrow> [json_dumps e v])"

datatype exit = Exit_normally | Exit_1 | Exit_raised error

text \<open>\<open>main\<close>: how the process ends and the lines it writes to standard output.\<close>

definition main ::
  "('r, 's, 'v) env \<Rightarrow> filesystem \<Rightarrow> ('r, 's, 'v) input_line list \<Rightarrow> exit \<times> string list" where
  "main e fs input_messages =
     (if validate_config e (config e) \<noteq> [] then (Exit_1, [])
      else (case persist_messages e fs input_messages of
              Inl (err, \<sigma>) \<Rightarrow> (Exit_raised err, [])
            | Inr (st, \<sigma>) \<Rightarrow> (Exit_normally, emit_state e st)))"

section \<open>Notions the properties are stated with\<close>

text \<open>
  The ordered union of the specification: every element once, in the order of its first
  occurrence.
\<close>

fun first_seen :: "string list \<Rightarrow> string list" where
  "first_seen [] = []"
| "first_seen (x # xs) = x # first_seen (removeAll x xs)"

text \<open>\<open>flattened_record\<close> of line 108, as a function of the record of the message.\<close>

definition flattened :: "('r, 's, 'v) env \<Rightarrow> 'r \<Rightarrow> flat_record" where
  "flattened e r = flatten_record e (record_to_load e r)"

text \<open>The flattened keys that one input line contributes to stream \<open>s\<close>.\<close>

fun record_keys :: "('r, 's, 'v) env \<Rightarrow> stream_name \<Rightarrow> ('r, 's, 'v) input_line \<Rightarrow> string list" where
  "record_keys e s (Parsed (RECORD t r)) =
     (if t = s then map fst (flatten_record e (record_to_load e r)) else [])"
| "record_keys e s other = []"

definition stream_keys :: "('r, 's, 'v) env \<Rightarrow> stream_name \<Rightarrow> ('r, 's, 'v) input_line list \<Rightarrow> string list" where
  "stream_keys e s ls = concat (map (record_keys e s) ls)"

text \<open>The streams of the RECORD messages of the input, one entry per message.\<close>

fun record_stream :: "('r, 's, 'v) input_line \<Rightarrow> stream_name list" where
  "record_stream (Parsed (RECORD t r)) = [t]"
| "record_stream other = []"

definition record_streams :: "('r, 's, 'v) input_line list \<Rightarrow> stream_name list" where
  "record_streams ls = concat (map record_stream ls)"

text \<open>The values of the STATE messages of the input, in arrival order.\<close>

fun state_value :: "('r, 's, 'v) input_line \<Rightarrow> 'v option list" where
  "state_value (Parsed (STATE v)) = [v]"
| "state_value other = []"

definition state_values :: "('r, 's, 'v) input_line list \<Rightarrow> 'v option list" where
  "state_values ls = concat (map state_value ls)"

text \<open>The streams of the SCHEMA messages of the input.\<close>

fun schema_stream :: "('r, 's, 'v) input_line \<Rightarrow> stream_name list" where
  "schema_stream (Parsed (SCHEMA t sch kp)) = [t]"
| "schema_stream other = []"

definition schema_streams :: "('r, 's, 'v) input_line list \<Rightarrow> stream_name list" where
  "schema_streams ls = concat (map schema_stream ls)"

text \<open>The header set of a stream; a stream without an entry in \<open>headers\<close> has none.\<close>

definition header_set :: "('s, 'v) run_state \<Rightarrow> stream_name \<Rightarrow> string list" where
  "header_set \<sigma> s = (case headers \<sigma> s of None \<Rightarrow> [] | Some h \<Rightarrow> h)"

text \<open>The file a RECORD of stream \<open>s\<close> is written to (lines 92 to 104).\<close>

definition record_file :: "('r, 's, 'v) env \<Rightarrow> ('s, 'v) run_state \<Rightarrow> stream_name \<Rightarrow> path" where
  "record_file e \<sigma> s = (case map_of (filenames \<sigma>) s of None \<Rightarrow> staging_filename e s | Some m \<Rightarrow> filename m)"

text \<open>The left operand of the union in \<open>reconcile\<close>.\<close>

definition header_base ::
  "('r, 's, 'v) env \<Rightarrow> (stream_name \<Rightarrow> string list option) \<Rightarrow> filesystem \<Rightarrow> stream_name \<Rightarrow> path \<Rightarrow> string list" where
  "header_base e hdrs fs s f =
     (case hdrs s of
        Some h \<Rightarrow> h
      | None \<Rightarrow> (case fs f of None \<Rightarrow> [] | Some ls \<Rightarrow>
                   if ls = [] then [] else csv_first_row e (get_delimiter (config e)) (get_quotechar (config e)) ls))"

subsection \<open>Invariants of the loop\<close>

definition headers_distinct :: "('s, 'v) run_state \<Rightarrow> bool" where
  "headers_distinct \<sigma> = (\<forall>s h. headers \<sigma> s = Some h \<longrightarrow> distinct h)"

definition filenames_ok :: "('r, 's, 'v) env \<Rightarrow> ('s, 'v) run_state \<Rightarrow> bool" where
  "filenames_ok e \<sigma> = (\<forall>(t, m) \<in> set (filenames \<sigma>). filename m = staging_filename e t)"

definition keys_inv ::
  "('r, 's, 'v) env \<Rightarrow> stream_name \<Rightarrow> ('s, 'v) run_state \<Rightarrow> string list \<Rightarrow> bool" where
  "keys_inv e s \<sigma> K =
     (filenames_ok e \<sigma> \<and>
      (headers \<sigma> s = Some (first_seen K) \<or>
       (headers \<sigma> s = None \<and> K = [] \<and> file_is_empty (files \<sigma>) (staging_filename e s))))"

text \<open>A text without a line break: written with a terminator behind it, it is one line.\<close>

definition no_break :: "string \<Rightarrow> bool" where
  "no_break t = (CHR 0x0A \<notin> set t \<and> CHR 0x0D \<notin> set t)"

text \<open>The lines of a file; a missing file has none.\<close>

definition lines_of :: "filesystem \<Rightarrow> path \<Rightarrow> text_file" where
  "lines_of fs p = (case fs p of None \<Rightarrow> [] | Some ls \<Rightarrow> ls)"

text \<open>The staging file of a stream holds one line per RECORD counted for the stream.\<close>

definition rows_inv ::
  "('r, 's, 'v) env \<Rightarrow> stream_name \<Rightarrow> ('s, 'v) run_state \<Rightarrow> nat \<Rightarrow> bool" where
  "rows_inv e s \<sigma> n =
     (filenames_ok e \<sigma> \<and> distinct (map fst (filenames \<sigma>)) \<and>
      length (lines_of (files \<sigma>) (staging_filename e s)) = n \<and>
      counter_value (record_counter \<sigma>) s = n \<and>
      (0 < n \<longrightarrow> s \<in> fst ` set (filenames \<sigma>) \<and> map_of (record_counter \<sigma>) s = Some n \<and>
                 files \<sigma> (staging_filename e s) \<noteq> None))"

text \<open>A stream that has had no RECORD so far.\<close>

definition untouched :: "stream_name \<Rightarrow> ('s, 'v) run_state \<Rightarrow> bool" where
  "untouched s \<sigma> =
     (s \<notin> fst ` set (filenames \<sigma>) \<and> headers \<sigma> s = None \<and> s \<notin> fst ` set (record_counter \<sigma>) \<and>
      (\<forall>t n. Info_metric t n \<notin> set (logged \<sigma>)))"

subsection \<open>A concrete environment and concrete runs\<close>

text \<open>
  Records are already flat, a schema is the list of the columns it allows, the CSV codec
  joins and splits on the delimiter without quoting, and the validator raises
  \<open>InvalidOperation\<close> on a column called \<open>multipleOf\<close> and another exception on a
  column the schema does not allow.
\<close>

fun split_on :: "char \<Rightarrow> string \<Rightarrow> string list" where
  "split_on c [] = [[]]"
| "split_on c (x # xs) =
     (if x = c then [] # split_on c xs
      else (case split_on c xs of [] \<Rightarrow> [[x]] | y # ys \<Rightarrow> (x # y) # ys))"

definition demo_validate :: "string list \<Rightarrow> flat_record \<Rightarrow> verdict" where
  "demo_validate sch r =
     (if ''multipleOf'' \<in> set (map fst r) then Raises_InvalidOperation
      else if filter (\<lambda>k. k \<notin> set sch) (map fst r) = [] then Valid
      else Raises_other)"

definition demo_env :: "string option \<Rightarrow> (flat_record, string list, string) env" where
  "demo_env d =
     \<lparr>config = \<lparr>delimiter = d, quotechar = None, add_metadata_columns = False\<rparr>,
      validate_config = (\<lambda>c. []),
      temp_path = (\<lambda>n. ''/tmp/'' @ n),
      now = ''T'',
      validate = demo_validate,
      add_metadata_values_to_record = (\<lambda>r. r),
      remove_metadata_values_from_record = (\<lambda>r. r),
      add_metadata_columns_to_schema = (\<lambda>s sch kp. sch),
      flatten_record = (\<lambda>r. r),
      get_target_key = (\<lambda>s r. s @ ''.csv''),
      csv_first_row = (\<lambda>dl q f. case f of [] \<Rightarrow> [] | l # ls \<Rightarrow>
                         (case dl of [c] \<Rightarrow> split_on c l | other \<Rightarrow> [l])),
      csv_row = (\<lambda>dl q fields. join dl fields),
      json_dumps = (\<lambda>v. v)\<rparr>"

text \<open>The first example of the specification.\<close>

definition users_run :: "(flat_record, string list, string) input_line list" where
  "users_run =
     [Parsed (SCHEMA ''users'' [''id'', ''name''] [''id'']),
      Parsed (RECORD ''users'' [(''id'', ''1''), (''name'', ''a'')]),
      Parsed (RECORD ''users'' [(''id'', ''2''), (''name'', ''b''), (''email'', ''x'')]),
      Parsed (STATE (Some ''{bookmark: 2}''))]"

text \<open>A later SCHEMA that narrows the columns, followed by a record with a new column.\<close>

definition narrowing_run :: "(flat_record, string list, string) input_line list" where
  "narrowing_run =
     [Parsed (SCHEMA ''users'' [''id''] [''id'']),
      Parsed (RECORD ''users'' [(''phone'', ''5''), (''id'', ''3'')])]"

definition orders_schema :: "(flat_record, string list, string) input_line list" where
  "orders_schema = [Parsed (SCHEMA ''orders'' [''id''] [''id''])]"

text \<open>A record with a column its schema does not allow.\<close>

definition unlisted_column_run :: "(flat_record, string list, string) input_line list" where
  "unlisted_column_run =
     [Parsed (SCHEMA ''users'' [''id'', ''name''] [''id'']),
      Parsed (RECORD ''users'' [(''id'', ''1''), (''nickname'', ''z'')])]"

text \<open>A staging file left behind with content, found again by a run with the same timestamp.\<close>

definition resumed_files :: filesystem where
  "resumed_files = [''/tmp/users-T.csv'' \<mapsto> [''id,name'', ''0,z'']]"

text \<open>A record with a line feed inside a value.\<close>

definition newline_run :: "(flat_record, string list, string) input_line list" where
  "newline_run =
     [Parsed (SCHEMA ''users'' [''id'', ''note''] [''id'']),
      Parsed (RECORD ''users'' [(''id'', ''1''), (''note'', ''one'' @ [CHR 0x0A] @ ''two'')])]"

section \<open>Lemmas\<close>

subsection \<open>Ordered sets of column names\<close>

lemma set_first_seen: "set (first_seen xs) = set xs"
  by (induction xs rule: first_seen.induct) auto

lemma distinct_first_seen: "distinct (first_seen xs)"
  by (induction xs rule: first_seen.induct) (auto simp: set_first_seen)

lemma first_seen_distinct_id: "distinct xs \<Longrightarrow> first_seen xs = xs"
  by (induction xs) auto

lemma od_set_all_Cons: "od_set_all ks (h # hs) = od_set_all (od_set ks h) hs"
  by (simp add: od_set_all_def)

lemma od_set_all_Nil: "od_set_all ks [] = ks"
  by (simp add: od_set_all_def)

lemma od_set_all_append: "od_set_all ks (xs @ ys) = od_set_all (od_set_all ks xs) ys"
  by (simp add: od_set_all_def)

lemma removeAll_filter: "removeAll h (filter P hs) = filter (\<lambda>k. k \<noteq> h \<and> P k) hs"
  by (induction hs) auto

lemma od_set_all_eq: "od_set_all ks hs = ks @ first_seen (filter (\<lambda>k. k \<notin> set ks) hs)"
proof (induction hs arbitrary: ks)
  case Nil
  show ?case by (simp add: od_set_all_Nil)
next
  case (Cons h hs)
  show ?case
  proof (cases "h \<in> set ks")
    case True
    then show ?thesis by (simp add: od_set_all_Cons od_set_def Cons.IH)
  next
    case False
    have "filter (\<lambda>k. k \<notin> set (ks @ [h])) hs = removeAll h (filter (\<lambda>k. k \<notin> set ks) hs)"
      by (simp add: removeAll_filter)
    with False show ?thesis by (simp add: od_set_all_Cons od_set_def Cons.IH)
  qed
qed

lemma od_set_all_empty: "od_set_all [] hs = first_seen hs"
  by (simp add: od_set_all_eq)

lemma od_set_all_twice: "od_set_all (od_set_all [] a) b = first_seen (a @ b)"
proof -
  have "od_set_all (od_set_all [] a) b = od_set_all [] (a @ b)"
    by (simp only: od_set_all_append)
  then show ?thesis by (simp only: od_set_all_empty)
qed

lemma first_seen_append: "first_seen (a @ b) = first_seen a @ first_seen (filter (\<lambda>k. k \<notin> set a) b)"
proof -
  have "first_seen (a @ b) = od_set_all (first_seen a) b"
    using od_set_all_twice [of a b] by (simp only: od_set_all_empty)
  then show ?thesis by (simp add: od_set_all_eq set_first_seen)
qed

lemma first_seen_absorb: "first_seen (first_seen a @ b) = first_seen (a @ b)"
  by (simp add: first_seen_append [of "first_seen a"] first_seen_append [of a] set_first_seen
      first_seen_distinct_id distinct_first_seen)

lemma first_seen_subset: "distinct h \<Longrightarrow> set ks \<subseteq> set h \<Longrightarrow> first_seen (h @ ks) = h"
proof -
  assume d: "distinct h" and s: "set ks \<subseteq> set h"
  from s have "filter (\<lambda>k. k \<notin> set h) ks = []" by (auto simp: filter_empty_conv)
  with d show ?thesis by (simp add: first_seen_append first_seen_distinct_id)
qed

lemma od_set_all_first_seen: "od_set_all (first_seen a) b = first_seen (a @ b)"
  using od_set_all_twice [of a b] by (simp only: od_set_all_empty)

subsection \<open>One RECORD message\<close>

lemma reconcile_eq:
  "reconcile e hdrs fs s f fr = first_seen (header_base e hdrs fs s f @ map fst fr)"
  by (auto simp: reconcile_def header_base_def file_is_empty_def od_set_all_first_seen Let_def
       od_set_all_empty split: option.splits)

lemma persist_record_eq:
  "persist_record e \<sigma> s r =
     \<sigma>\<lparr>filenames := (if map_of (filenames \<sigma>) s = None
                 then filenames \<sigma> @ [(s, \<lparr>filename = staging_filename e s, target_key = get_target_key e s r\<rparr>)]
                 else filenames \<sigma>),
       headers := (headers \<sigma>)(s \<mapsto> reconcile e (headers \<sigma>) (files \<sigma>) s (record_file e \<sigma> s) (flattened e r)),
       record_counter := count_record (record_counter \<sigma>) s,
       files := append_text (files \<sigma>) (record_file e \<sigma> s)
          (csv_row e (get_delimiter (config e)) (get_quotechar (config e))
             (dict_to_list (reconcile e (headers \<sigma>) (files \<sigma>) s (record_file e \<sigma> s) (flattened e r)) (flattened e r))
           @ [CHR 0x0D, CHR 0x0A])\<rparr>"
  by (cases "map_of (filenames \<sigma>) s")
     (simp_all add: persist_record_def record_file_def flattened_def Let_def map_add_def)

lemma headers_persist_record:
  "headers (persist_record e \<sigma> s r) =
     (headers \<sigma>)(s \<mapsto> first_seen (header_base e (headers \<sigma>) (files \<sigma>) s (record_file e \<sigma> s) @ map fst (flattened e r)))"
  by (simp add: persist_record_eq reconcile_eq)

lemma files_persist_record:
  "\<exists>h. files (persist_record e \<sigma> s r) = append_text (files \<sigma>) (record_file e \<sigma> s)
     (csv_row e (get_delimiter (config e)) (get_quotechar (config e)) (dict_to_list h (flattened e r))
      @ [CHR 0x0D, CHR 0x0A])"
  by (simp add: persist_record_eq) (rule exI, rule refl)

lemma other_persist_record:
  "state (persist_record e \<sigma> s r) = state \<sigma>"
  "schemas (persist_record e \<sigma> s r) = schemas \<sigma>"
  "validators (persist_record e \<sigma> s r) = validators \<sigma>"
  "key_properties (persist_record e \<sigma> s r) = key_properties \<sigma>"
  "logged (persist_record e \<sigma> s r) = logged \<sigma>"
  "uploaded (persist_record e \<sigma> s r) = uploaded \<sigma>"
  "record_counter (persist_record e \<sigma> s r) = count_record (record_counter \<sigma>) s"
  by (simp_all add: persist_record_eq)

lemma filenames_persist_record:
  "filenames (persist_record e \<sigma> s r) = (if map_of (filenames \<sigma>) s = None
                 then filenames \<sigma> @ [(s, \<lparr>filename = staging_filename e s, target_key = get_target_key e s r\<rparr>)]
                 else filenames \<sigma>)"
  by (simp add: persist_record_eq)

subsection \<open>Steps and invariants\<close>

text \<open>What a successful step is.\<close>

lemma handle_line_Inr_cases:
  assumes "handle_line e \<sigma> l = Inr \<sigma>'"
  obtains (is_record) s r where "l = Parsed (RECORD s r)" "schemas \<sigma> s \<noteq> None" "\<sigma>' = persist_record e \<sigma> s r"
  | (is_state) v where "l = Parsed (STATE v)" "\<sigma>' = \<sigma>\<lparr>logged := logged \<sigma> @ [Debug_setting_state v], state := v\<rparr>"
  | (is_schema) s sch kp where "l = Parsed (SCHEMA s sch kp)"
      "\<sigma>' = \<sigma>\<lparr>schemas := (schemas \<sigma>)(s \<mapsto>
                 (if add_metadata_columns (config e) then add_metadata_columns_to_schema e s sch kp else sch)),
             validators := (validators \<sigma>)(s \<mapsto> sch),
             key_properties := (key_properties \<sigma>)(s \<mapsto> kp)\<rparr>"
  | (is_activate) "l = Parsed ACTIVATE_VERSION" "\<sigma>' = \<sigma>\<lparr>logged := logged \<sigma> @ [Debug_activate_version]\<rparr>"
  | (is_unknown) t where "l = Parsed (UNKNOWN t)" "\<sigma>' = \<sigma>\<lparr>logged := logged \<sigma> @ [Warning_unknown_message_type t]\<rparr>"
proof (cases l)
  case (Unparseable raw)
  with assms show ?thesis by (simp add: handle_line_def)
next
  case (Parsed m)
  with assms have hm: "handle_message e \<sigma> m = Inr \<sigma>'" by (simp add: handle_line_def)
  show ?thesis
  proof (cases m)
    case (RECORD s r)
    with hm Parsed is_record show ?thesis by (auto split: if_splits verdict.splits)
  next
    case (STATE v)
    with hm Parsed is_state show ?thesis by auto
  next
    case (SCHEMA s sch kp)
    with hm Parsed is_schema show ?thesis by auto
  next
    case ACTIVATE_VERSION
    with hm Parsed is_activate show ?thesis by auto
  next
    case (UNKNOWN t)
    with hm Parsed is_unknown show ?thesis by auto
  qed
qed

text \<open>A loop invariant is carried from the start state to the end state.\<close>

lemma message_loop_invariant:
  assumes "message_loop e \<sigma> ls = Inr \<sigma>'" and "P \<sigma>"
    and "\<And>\<sigma>1 l \<sigma>2. P \<sigma>1 \<Longrightarrow> handle_line e \<sigma>1 l = Inr \<sigma>2 \<Longrightarrow> P \<sigma>2"
  shows "P \<sigma>'"
  using assms(1,2)
proof (induction ls arbitrary: \<sigma>)
  case Nil
  then show ?case by simp
next
  case (Cons l ls)
  then show ?case by (auto split: sum.splits intro: assms(3))
qed

lemma headers_distinct_step:
  "headers_distinct \<sigma> \<Longrightarrow> handle_line e \<sigma> l = Inr \<sigma>' \<Longrightarrow> headers_distinct \<sigma>'"
  by (erule handle_line_Inr_cases)
     (auto simp: headers_distinct_def headers_persist_record distinct_first_seen)

lemma headers_distinct_reachable:
  "message_loop e (initial_state fs) ls = Inr \<sigma> \<Longrightarrow> headers_distinct \<sigma>"
  by (erule message_loop_invariant) (auto simp: headers_distinct_def initial_state_def intro: headers_distinct_step[unfolded headers_distinct_def, rule_format])

lemma record_file_ok: "filenames_ok e \<sigma> \<Longrightarrow> record_file e \<sigma> t = staging_filename e t"
  by (auto simp: filenames_ok_def record_file_def split: option.splits dest!: map_of_SomeD)

lemma filenames_ok_step:
  assumes "filenames_ok e \<sigma>" "handle_line e \<sigma> l = Inr \<sigma>'"
  shows "filenames_ok e \<sigma>'"
  using assms(2)
proof (cases rule: handle_line_Inr_cases)
  case (is_record s r)
  with assms(1) show ?thesis
    by (auto simp: filenames_ok_def filenames_persist_record split: if_splits)
qed (use assms(1) in \<open>auto simp: filenames_ok_def\<close>)

lemma filenames_ok_initial: "filenames_ok e (initial_state fs)"
  by (simp add: filenames_ok_def initial_state_def)

lemma filenames_ok_reachable:
  "message_loop e (initial_state fs) ls = Inr \<sigma> \<Longrightarrow> filenames_ok e \<sigma>"
  by (erule message_loop_invariant) (auto intro: filenames_ok_initial filenames_ok_step)

subsection \<open>Headers only grow\<close>

lemma headers_step_prefix:
  assumes "headers_distinct \<sigma>" "handle_line e \<sigma> l = Inr \<sigma>'" "headers \<sigma> s = Some h"
  shows "\<exists>h'. headers \<sigma>' s = Some h' \<and> prefix h h'"
  using assms(2)
proof (cases rule: handle_line_Inr_cases)
  case (is_record t r)
  from assms(1,3) have "distinct h" by (auto simp: headers_distinct_def)
  with is_record assms(3) show ?thesis
    by (auto simp: headers_persist_record header_base_def first_seen_append first_seen_distinct_id)
qed (use assms(3) in auto)

lemma headers_loop_prefix:
  "message_loop e \<sigma> ls = Inr \<sigma>' \<Longrightarrow> headers_distinct \<sigma> \<Longrightarrow> headers \<sigma> s = Some h \<Longrightarrow>
     \<exists>h'. headers \<sigma>' s = Some h' \<and> prefix h h'"
proof (induction ls arbitrary: \<sigma> h)
  case Nil
  then show ?case by simp
next
  case (Cons l ls)
  from Cons.prems(1) obtain \<sigma>1 where s1: "handle_line e \<sigma> l = Inr \<sigma>1"
    and rest: "message_loop e \<sigma>1 ls = Inr \<sigma>'"
    by (auto split: sum.splits)
  from headers_step_prefix [OF Cons.prems(2) s1 Cons.prems(3)]
  obtain h1 where h1: "headers \<sigma>1 s = Some h1" "prefix h h1" by blast
  from Cons.IH [OF rest headers_distinct_step [OF Cons.prems(2) s1] h1(1)]
  obtain h' where "headers \<sigma>' s = Some h'" "prefix h1 h'" by blast
  with h1(2) show ?case by (auto intro: prefix_order.trans)
qed

subsection \<open>The header set of a stream started on an empty file\<close>

lemma append_text_other: "p \<noteq> q \<Longrightarrow> append_text fs p t q = fs q"
  by (simp add: append_text_def)

lemma keys_inv_step:
  assumes inv: "keys_inv e s \<sigma> K" and step: "handle_line e \<sigma> l = Inr \<sigma>'"
    and na: "\<And>t. t \<in> set (record_stream l) \<Longrightarrow> staging_filename e t = staging_filename e s \<Longrightarrow> t = s"
  shows "keys_inv e s \<sigma>' (K @ record_keys e s l)"
proof -
  from inv have ok: "filenames_ok e \<sigma>" by (simp add: keys_inv_def)
  have ok': "filenames_ok e \<sigma>'" by (rule filenames_ok_step [OF ok step])
  from step show ?thesis
  proof (cases rule: handle_line_Inr_cases)
    case (is_record t r)
    show ?thesis
    proof (cases "t = s")
      case True
      from inv have "header_base e (headers \<sigma>) (files \<sigma>) s (staging_filename e s) = first_seen K"
        by (auto simp: keys_inv_def header_base_def file_is_empty_def split: option.splits)
      with True is_record ok ok' show ?thesis
        by (simp add: keys_inv_def headers_persist_record record_file_ok first_seen_absorb flattened_def)
    next
      case False
      with na is_record have ne: "staging_filename e t \<noteq> staging_filename e s" by auto
      obtain ln where f: "files \<sigma>' = append_text (files \<sigma>) (staging_filename e t) ln"
        using files_persist_record [of e \<sigma> t r] is_record ok by (auto simp: record_file_ok)
      have same: "file_is_empty (files \<sigma>') (staging_filename e s) = file_is_empty (files \<sigma>) (staging_filename e s)"
        using ne by (simp add: f file_is_empty_def append_text_other)
      have "headers \<sigma>' s = headers \<sigma> s"
        using False is_record by (simp add: headers_persist_record)
      with inv ok' same show ?thesis
        using is_record False by (auto simp: keys_inv_def)
    qed
  qed (use inv ok' in \<open>auto simp: keys_inv_def\<close>)
qed

lemma keys_inv_loop:
  "message_loop e \<sigma> ls = Inr \<sigma>' \<Longrightarrow> keys_inv e s \<sigma> K \<Longrightarrow>
   (\<And>t. t \<in> set (record_streams ls) \<Longrightarrow> staging_filename e t = staging_filename e s \<Longrightarrow> t = s) \<Longrightarrow>
   keys_inv e s \<sigma>' (K @ stream_keys e s ls)"
proof (induction ls arbitrary: \<sigma> K)
  case Nil
  then show ?case by (simp add: stream_keys_def)
next
  case (Cons l ls)
  from Cons.prems(1) obtain \<sigma>1 where s1: "handle_line e \<sigma> l = Inr \<sigma>1"
    and rest: "message_loop e \<sigma>1 ls = Inr \<sigma>'"
    by (auto split: sum.splits)
  have na_l: "t = s" if "t \<in> set (record_stream l)" "staging_filename e t = staging_filename e s" for t
    using that Cons.prems(3) [of t] by (simp add: record_streams_def)
  have na_ls: "t = s" if "t \<in> set (record_streams ls)" "staging_filename e t = staging_filename e s" for t
    using that Cons.prems(3) [of t] by (simp add: record_streams_def)
  have i1: "keys_inv e s \<sigma>1 (K @ record_keys e s l)"
    by (rule keys_inv_step [OF Cons.prems(2) s1]) (rule na_l)
  have "keys_inv e s \<sigma>' ((K @ record_keys e s l) @ stream_keys e s ls)"
    by (rule Cons.IH [OF rest i1]) (rule na_ls)
  then show ?case by (simp add: stream_keys_def)
qed

lemma header_set_loop:
  assumes loop: "message_loop e (initial_state fs) ls = Inr \<sigma>"
    and empty: "file_is_empty fs (staging_filename e s)"
    and na: "\<And>t. t \<in> set (record_streams ls) \<Longrightarrow> staging_filename e t = staging_filename e s \<Longrightarrow> t = s"
  shows "header_set \<sigma> s = first_seen (stream_keys e s ls)"
proof -
  have "keys_inv e s (initial_state fs) []"
    using empty by (simp add: keys_inv_def filenames_ok_initial) (simp add: initial_state_def)
  from keys_inv_loop [OF loop this na]
  have "keys_inv e s \<sigma> (stream_keys e s ls)" by simp
  then show ?thesis by (auto simp: keys_inv_def header_set_def)
qed

lemma stream_keys_member:
  assumes "k \<in> set (stream_keys e s ls)"
  shows "\<exists>r. Parsed (RECORD s r) \<in> set ls \<and> k \<in> fst ` set (flatten_record e (record_to_load e r))"
proof -
  from assms obtain l where l: "l \<in> set ls" and k: "k \<in> set (record_keys e s l)"
    by (auto simp: stream_keys_def)
  from k obtain r where "l = Parsed (RECORD s r)"
    and "k \<in> fst ` set (flatten_record e (record_to_load e r))"
    by (cases "(e, s, l)" rule: record_keys.cases) (auto split: if_splits)
  with l show ?thesis by blast
qed

lemma add_headers_frame:
  "add_headers fns \<sigma> = Inr \<sigma>' \<Longrightarrow>
     headers \<sigma>' = headers \<sigma> \<and> state \<sigma>' = state \<sigma> \<and> filenames \<sigma>' = filenames \<sigma> \<and>
     record_counter \<sigma>' = record_counter \<sigma> \<and> logged \<sigma>' = logged \<sigma> \<and> uploaded \<sigma>' = uploaded \<sigma> \<and>
     schemas \<sigma>' = schemas \<sigma>"
proof (induction fns arbitrary: \<sigma>)
  case Nil
  then show ?case by simp
next
  case (Cons p fns)
  obtain s m where p: "p = (s, m)" by (cases p)
  from Cons.prems p obtain d h where "files \<sigma> (filename m) = Some d" "headers \<sigma> s = Some h"
    and r: "add_headers fns (\<sigma>\<lparr>files := (files \<sigma>)(filename m \<mapsto> split_text (join '','' h @ [CHR 0x0A]) @ d)\<rparr>) = Inr \<sigma>'"
    by (auto split: option.splits)
  from Cons.IH [OF r] show ?case by simp
qed

lemma persist_messages_Inr:
  assumes "persist_messages e fs ls = Inr (st, \<sigma>)"
  obtains \<sigma>1 \<sigma>2 where "message_loop e (initial_state fs) ls = Inr \<sigma>1"
    and "add_headers (filenames \<sigma>1) \<sigma>1 = Inr \<sigma>2"
    and "st = state \<sigma>2"
    and "\<sigma> = \<sigma>2\<lparr>uploaded := map snd (filenames \<sigma>2),
                  logged := logged \<sigma>2 @ map (\<lambda>s. print_metric (record_counter \<sigma>2) s) (map fst (record_counter \<sigma>2))\<rparr>"
  using assms by (auto simp: persist_messages_def split: sum.splits)

subsection \<open>The loop, piecewise\<close>

lemma message_loop_append:
  "message_loop e \<sigma> (xs @ ys) =
     (case message_loop e \<sigma> xs of Inl err \<Rightarrow> Inl err | Inr \<sigma>' \<Rightarrow> message_loop e \<sigma>' ys)"
  by (induction xs arbitrary: \<sigma>) (auto split: sum.splits)

lemma message_loop_invariant_mem:
  assumes "message_loop e \<sigma> ls = Inr \<sigma>'" and "P \<sigma>"
    and "\<And>\<sigma>1 l \<sigma>2. l \<in> set ls \<Longrightarrow> P \<sigma>1 \<Longrightarrow> handle_line e \<sigma>1 l = Inr \<sigma>2 \<Longrightarrow> P \<sigma>2"
  shows "P \<sigma>'"
  using assms
proof (induction ls arbitrary: \<sigma>)
  case Nil
  then show ?case by simp
next
  case (Cons l ls)
  from Cons.prems(1) obtain \<sigma>1 where s1: "handle_line e \<sigma> l = Inr \<sigma>1"
    and rest: "message_loop e \<sigma>1 ls = Inr \<sigma>'"
    by (auto split: sum.splits)
  have "P \<sigma>1" by (rule Cons.prems(3) [OF _ Cons.prems(2) s1]) simp
  show ?case
    by (rule Cons.IH [OF rest \<open>P \<sigma>1\<close>]) (rule Cons.prems(3), auto)
qed

subsection \<open>Schemas\<close>

lemma schemas_untouched:
  assumes "message_loop e \<sigma> ls = Inr \<sigma>'" "s \<notin> set (schema_streams ls)"
  shows "schemas \<sigma>' s = schemas \<sigma> s"
proof -
  have "schemas \<sigma>' s = schemas \<sigma> s"
  proof (rule message_loop_invariant_mem [OF assms(1), where P = "\<lambda>x. schemas x s = schemas \<sigma> s"])
    fix \<sigma>1 l \<sigma>2
    assume l: "l \<in> set ls" and p: "schemas \<sigma>1 s = schemas \<sigma> s" and st: "handle_line e \<sigma>1 l = Inr \<sigma>2"
    from st show "schemas \<sigma>2 s = schemas \<sigma> s"
    proof (cases rule: handle_line_Inr_cases)
      case (is_schema t sch kp)
      with l assms(2) have "t \<noteq> s" by (auto simp: schema_streams_def)
      with is_schema p show ?thesis by simp
    qed (use p in \<open>auto simp: other_persist_record\<close>)
  qed simp
  then show ?thesis .
qed

subsection \<open>State\<close>

lemma state_after_loop:
  "message_loop e \<sigma> ls = Inr \<sigma>' \<Longrightarrow> state \<sigma>' = last (state \<sigma> # state_values ls)"
proof (induction ls arbitrary: \<sigma>)
  case Nil
  then show ?case by (simp add: state_values_def)
next
  case (Cons l ls)
  from Cons.prems obtain \<sigma>1 where s1: "handle_line e \<sigma> l = Inr \<sigma>1"
    and rest: "message_loop e \<sigma>1 ls = Inr \<sigma>'"
    by (auto split: sum.splits)
  from s1 have "last (state \<sigma>1 # state_values ls) = last (state \<sigma> # state_values (l # ls))"
    by (cases rule: handle_line_Inr_cases) (auto simp: state_values_def other_persist_record)
  with Cons.IH [OF rest] show ?case by simp
qed

lemma returned_state:
  assumes "persist_messages e fs ls = Inr (st, \<sigma>)"
  shows "st = last (None # state_values ls)"
proof -
  from assms obtain \<sigma>1 \<sigma>2 where loop: "message_loop e (initial_state fs) ls = Inr \<sigma>1"
    and fin: "add_headers (filenames \<sigma>1) \<sigma>1 = Inr \<sigma>2" and st: "st = state \<sigma>2"
    by (rule persist_messages_Inr)
  from state_after_loop [OF loop] add_headers_frame [OF fin] st show ?thesis
    by (simp add: initial_state_def)
qed

subsection \<open>Counters\<close>

lemma map_of_count_record:
  "map_of (count_record rc s) = (map_of rc)(s \<mapsto> counter_value rc s + 1)"
  by (auto simp: count_record_def counter_value_def Let_def update_conv' split: option.splits)

lemma counter_value_count_record:
  "counter_value (count_record rc s) t = (if t = s then counter_value rc s + 1 else counter_value rc t)"
  by (simp add: counter_value_def [of "count_record rc s"] map_of_count_record)
     (simp add: counter_value_def)

lemma keys_count_record: "fst ` set (count_record rc s) = insert s (fst ` set rc)"
  by (auto simp: count_record_def Let_def dom_update)

subsection \<open>Files\<close>

lemma lines_of_append_text:
  "lines_of (append_text fs p t) q = (if q = p then lines_of fs p @ split_text t else lines_of fs q)"
  by (simp add: lines_of_def append_text_def)

lemma append_text_same: "append_text fs p t p = Some (lines_of fs p @ split_text t)"
  by (simp add: lines_of_def append_text_def)

lemma split_text_lf: "no_break t \<Longrightarrow> split_text (t @ [CHR 0x0A]) = [t]"
  by (induction t) (auto simp: no_break_def)

lemma split_text_crlf: "no_break t \<Longrightarrow> split_text (t @ [CHR 0x0D, CHR 0x0A]) = [t]"
  by (induction t) (auto simp: no_break_def)

lemma no_break_append: "no_break (a @ b) \<longleftrightarrow> no_break a \<and> no_break b"
  by (auto simp: no_break_def)

lemma no_break_join:
  "no_break sep \<Longrightarrow> (\<And>x. x \<in> set xs \<Longrightarrow> no_break x) \<Longrightarrow> no_break (join sep xs)"
  by (induction sep xs rule: join.induct) (auto simp: no_break_append, simp add: no_break_def)

lemma no_break_dict_to_list:
  assumes "\<And>k v. (k, v) \<in> set row \<Longrightarrow> no_break v" and "f \<in> set (dict_to_list fieldnames row)"
  shows "no_break f"
proof -
  from assms(2) obtain k where f: "f = (case map_of row k of None \<Rightarrow> [] | Some v \<Rightarrow> v)"
    by (auto simp: dict_to_list_def)
  show ?thesis
  proof (cases "map_of row k")
    case None
    with f show ?thesis by (simp add: no_break_def)
  next
    case (Some v)
    then have "(k, v) \<in> set row" by (rule map_of_SomeD)
    with assms(1) f Some show ?thesis by simp
  qed
qed

lemma add_headers_other_file:
  "add_headers fns \<sigma> = Inr \<sigma>' \<Longrightarrow> p \<notin> (\<lambda>(t, m). filename m) ` set fns \<Longrightarrow> files \<sigma>' p = files \<sigma> p"
proof (induction fns arbitrary: \<sigma>)
  case Nil
  then show ?case by simp
next
  case (Cons x fns)
  obtain t m where x: "x = (t, m)" by (cases x)
  from Cons.prems(1) x obtain d h where
    r: "add_headers fns (\<sigma>\<lparr>files := (files \<sigma>)(filename m \<mapsto> split_text (join '','' h @ [CHR 0x0A]) @ d)\<rparr>) = Inr \<sigma>'"
    by (auto split: option.splits)
  from Cons.prems(2) x have ne: "p \<noteq> filename m" and rest: "p \<notin> (\<lambda>(t, m). filename m) ` set fns"
    by auto
  from Cons.IH [OF r rest] ne show ?case by simp
qed

lemma add_headers_own_file:
  "add_headers fns \<sigma> = Inr \<sigma>' \<Longrightarrow> distinct (map fst fns) \<Longrightarrow> (s, m) \<in> set fns \<Longrightarrow>
   (\<And>t m'. (t, m') \<in> set fns \<Longrightarrow> filename m' = filename m \<Longrightarrow> t = s) \<Longrightarrow>
   \<exists>h d. headers \<sigma> s = Some h \<and> files \<sigma> (filename m) = Some d \<and>
         files \<sigma>' (filename m) = Some (split_text (join '','' h @ [CHR 0x0A]) @ d)"
proof (induction fns arbitrary: \<sigma>)
  case Nil
  then show ?case by simp
next
  case (Cons x fns)
  obtain t m' where x: "x = (t, m')" by (cases x)
  from Cons.prems(1) x obtain d h where d: "files \<sigma> (filename m') = Some d"
    and h: "headers \<sigma> t = Some h"
    and r: "add_headers fns (\<sigma>\<lparr>files := (files \<sigma>)(filename m' \<mapsto> split_text (join '','' h @ [CHR 0x0A]) @ d)\<rparr>) = Inr \<sigma>'"
    by (auto split: option.splits)
  show ?case
  proof (cases "(s, m) \<in> set fns")
    case True
    with Cons.prems(2) x have ts: "t \<noteq> s" by (auto simp: image_iff)
    with Cons.prems(4) [of t m'] x have ne: "filename m' \<noteq> filename m" by auto
    have "\<exists>h1 d1. headers (\<sigma>\<lparr>files := (files \<sigma>)(filename m' \<mapsto> split_text (join '','' h @ [CHR 0x0A]) @ d)\<rparr>) s = Some h1 \<and>
        files (\<sigma>\<lparr>files := (files \<sigma>)(filename m' \<mapsto> split_text (join '','' h @ [CHR 0x0A]) @ d)\<rparr>) (filename m) = Some d1 \<and>
        files \<sigma>' (filename m) = Some (split_text (join '','' h1 @ [CHR 0x0A]) @ d1)"
    proof (rule Cons.IH [OF r _ True])
      show "distinct (map fst fns)" using Cons.prems(2) by simp
      show "t' = s" if "(t', m1) \<in> set fns" "filename m1 = filename m" for t' m1
        using that Cons.prems(4) [of t' m1] by simp
    qed
    with ne show ?thesis by simp
  next
    case False
    with Cons.prems(3) x have eq: "t = s" "m' = m" by auto
    have "filename m \<notin> (\<lambda>(t, m). filename m) ` set fns"
    proof
      assume "filename m \<in> (\<lambda>(t, m). filename m) ` set fns"
      then obtain t1 m1 where in1: "(t1, m1) \<in> set fns" and f1: "filename m1 = filename m" by auto
      from Cons.prems(4) [of t1 m1] in1 f1 have "t1 = s" by simp
      with in1 have "s \<in> fst ` set fns" by force
      with Cons.prems(2) x eq show False by simp
    qed
    from add_headers_other_file [OF r this] d h eq show ?thesis by simp
  qed
qed

subsection \<open>Rows and counters of one stream\<close>

lemma map_of_None_keys: "map_of xs k = None \<longleftrightarrow> k \<notin> fst ` set xs"
  by (simp add: map_of_eq_None_iff)

lemma rows_inv_step:
  assumes inv: "rows_inv e s \<sigma> n" and step: "handle_line e \<sigma> l = Inr \<sigma>'"
    and na: "\<And>t. t \<in> set (record_stream l) \<Longrightarrow> staging_filename e t = staging_filename e s \<Longrightarrow> t = s"
    and one: "\<And>r h. l = Parsed (RECORD s r) \<Longrightarrow>
       no_break (csv_row e (get_delimiter (config e)) (get_quotechar (config e)) (dict_to_list h (flattened e r)))"
  shows "rows_inv e s \<sigma>' (n + count_list (record_stream l) s)"
proof -
  from inv have ok: "filenames_ok e \<sigma>" by (simp add: rows_inv_def)
  have ok': "filenames_ok e \<sigma>'" by (rule filenames_ok_step [OF ok step])
  from step show ?thesis
  proof (cases rule: handle_line_Inr_cases)
    case (is_record t r)
    obtain h where "files \<sigma>' = append_text (files \<sigma>) (staging_filename e t)
        (csv_row e (get_delimiter (config e)) (get_quotechar (config e)) (dict_to_list h (flattened e r))
         @ [CHR 0x0D, CHR 0x0A])"
      using files_persist_record [of e \<sigma> t r] is_record ok by (auto simp: record_file_ok)
    then have f: "lines_of (files \<sigma>') q = (if q = staging_filename e t
        then lines_of (files \<sigma>) (staging_filename e t) @
          split_text (csv_row e (get_delimiter (config e)) (get_quotechar (config e)) (dict_to_list h (flattened e r))
            @ [CHR 0x0D, CHR 0x0A])
        else lines_of (files \<sigma>) q)"
      and f': "files \<sigma>' (staging_filename e t) \<noteq> None"
      and f'': "q \<noteq> staging_filename e t \<Longrightarrow> files \<sigma>' q = files \<sigma> q" for q
      by (simp_all add: lines_of_append_text append_text_same append_text_other)
    have fn: "filenames \<sigma>' = (if t \<in> fst ` set (filenames \<sigma>) then filenames \<sigma>
        else filenames \<sigma> @ [(t, \<lparr>filename = staging_filename e t, target_key = get_target_key e t r\<rparr>)])"
      using is_record by (simp add: filenames_persist_record map_of_None_keys)
    have rc: "record_counter \<sigma>' = count_record (record_counter \<sigma>) t"
      using is_record by (simp add: other_persist_record)
    from inv have dist: "distinct (map fst (filenames \<sigma>'))"
      by (auto simp: fn rows_inv_def)
    have cnt: "count_list (record_stream l) s = (if t = s then 1 else 0)"
      using is_record by simp
    show ?thesis
    proof (cases "t = s")
      case True
      with is_record have "l = Parsed (RECORD s r)" by simp
      from one [OF this, of h] have single:
        "split_text (csv_row e (get_delimiter (config e)) (get_quotechar (config e)) (dict_to_list h (flattened e r))
            @ [CHR 0x0D, CHR 0x0A])
         = [csv_row e (get_delimiter (config e)) (get_quotechar (config e)) (dict_to_list h (flattened e r))]"
        by (rule split_text_crlf)
      from True inv ok' dist f' show ?thesis
        by (auto simp: rows_inv_def f single fn rc cnt counter_value_count_record map_of_count_record)
    next
      case False
      with na is_record have ne: "staging_filename e s \<noteq> staging_filename e t" by auto
      with False inv ok' dist f'' [of "staging_filename e s"] show ?thesis
        by (auto simp: rows_inv_def f fn rc cnt counter_value_count_record map_of_count_record)
    qed
  qed (use inv ok' in \<open>auto simp: rows_inv_def\<close>)
qed

lemma rows_inv_loop:
  "message_loop e \<sigma> ls = Inr \<sigma>' \<Longrightarrow> rows_inv e s \<sigma> n \<Longrightarrow>
   (\<And>t. t \<in> set (record_streams ls) \<Longrightarrow> staging_filename e t = staging_filename e s \<Longrightarrow> t = s) \<Longrightarrow>
   (\<And>r h. Parsed (RECORD s r) \<in> set ls \<Longrightarrow>
       no_break (csv_row e (get_delimiter (config e)) (get_quotechar (config e)) (dict_to_list h (flattened e r)))) \<Longrightarrow>
   rows_inv e s \<sigma>' (n + count_list (record_streams ls) s)"
proof (induction ls arbitrary: \<sigma> n)
  case Nil
  then show ?case by (simp add: record_streams_def)
next
  case (Cons l ls)
  from Cons.prems(1) obtain \<sigma>1 where s1: "handle_line e \<sigma> l = Inr \<sigma>1"
    and rest: "message_loop e \<sigma>1 ls = Inr \<sigma>'"
    by (auto split: sum.splits)
  have na_l: "t = s" if "t \<in> set (record_stream l)" "staging_filename e t = staging_filename e s" for t
    using that Cons.prems(3) [of t] by (simp add: record_streams_def)
  have na_ls: "t = s" if "t \<in> set (record_streams ls)" "staging_filename e t = staging_filename e s" for t
    using that Cons.prems(3) [of t] by (simp add: record_streams_def)
  have one_l: "no_break (csv_row e (get_delimiter (config e)) (get_quotechar (config e)) (dict_to_list h (flattened e r)))"
    if "l = Parsed (RECORD s r)" for r h
    using that Cons.prems(4) [of r h] by simp
  have one_ls: "no_break (csv_row e (get_delimiter (config e)) (get_quotechar (config e)) (dict_to_list h (flattened e r)))"
    if "Parsed (RECORD s r) \<in> set ls" for r h
    using that Cons.prems(4) [of r h] by simp
  have i1: "rows_inv e s \<sigma>1 (n + count_list (record_stream l) s)"
    by (rule rows_inv_step [OF Cons.prems(2) s1 na_l one_l])
  have "rows_inv e s \<sigma>' (n + count_list (record_stream l) s + count_list (record_streams ls) s)"
    by (rule Cons.IH [OF rest i1 na_ls one_ls])
  moreover have "count_list (record_streams (l # ls)) s
      = count_list (record_stream l) s + count_list (record_streams ls) s"
    by (simp add: record_streams_def)
  ultimately show ?case by (simp add: add.assoc)
qed

lemma filenames_keys_loop:
  assumes "message_loop e (initial_state fs) ls = Inr \<sigma>"
  shows "fst ` set (filenames \<sigma>) \<subseteq> set (record_streams ls)"
proof (rule message_loop_invariant_mem [OF assms, where P = "\<lambda>x. fst ` set (filenames x) \<subseteq> set (record_streams ls)"])
  fix \<sigma>1 l \<sigma>2
  assume l: "l \<in> set ls" and p: "fst ` set (filenames \<sigma>1) \<subseteq> set (record_streams ls)"
    and st: "handle_line e \<sigma>1 l = Inr \<sigma>2"
  from st show "fst ` set (filenames \<sigma>2) \<subseteq> set (record_streams ls)"
  proof (cases rule: handle_line_Inr_cases)
    case (is_record t r)
    with l have "t \<in> set (record_streams ls)" by (force simp: record_streams_def)
    with is_record p show ?thesis by (auto simp: filenames_persist_record)
  qed (use p in auto)
qed (simp add: initial_state_def)

lemma rows_inv_initial:
  "file_is_empty fs (staging_filename e s) \<Longrightarrow> rows_inv e s (initial_state fs) 0"
  by (auto simp: rows_inv_def filenames_ok_def lines_of_def file_is_empty_def counter_value_def
      initial_state_def split: option.splits)

subsection \<open>A stream without records\<close>

lemma untouched_loop:
  assumes loop: "message_loop e (initial_state fs) ls = Inr \<sigma>"
    and norec: "s \<notin> set (record_streams ls)"
  shows "untouched s \<sigma>"
proof (rule message_loop_invariant_mem [OF loop, where P = "untouched s"])
  fix \<sigma>1 l \<sigma>2
  assume l: "l \<in> set ls" and p: "untouched s \<sigma>1" and st: "handle_line e \<sigma>1 l = Inr \<sigma>2"
  from st show "untouched s \<sigma>2"
  proof (cases rule: handle_line_Inr_cases)
    case (is_record t r)
    with l norec have "t \<noteq> s" by (force simp: record_streams_def)
    with is_record p show ?thesis
      by (auto simp: untouched_def filenames_persist_record headers_persist_record
          other_persist_record keys_count_record)
  qed (use p in \<open>auto simp: untouched_def\<close>)
qed (simp add: untouched_def initial_state_def)

lemma other_files_loop:
  assumes loop: "message_loop e (initial_state fs) ls = Inr \<sigma>"
    and ne: "\<And>t. t \<in> set (record_streams ls) \<Longrightarrow> staging_filename e t \<noteq> p"
  shows "filenames_ok e \<sigma> \<and> files \<sigma> p = fs p"
proof (rule message_loop_invariant_mem [OF loop, where P = "\<lambda>x. filenames_ok e x \<and> files x p = fs p"])
  fix \<sigma>1 l \<sigma>2
  assume l: "l \<in> set ls" and p: "filenames_ok e \<sigma>1 \<and> files \<sigma>1 p = fs p"
    and st: "handle_line e \<sigma>1 l = Inr \<sigma>2"
  have ok': "filenames_ok e \<sigma>2" using p st by (auto intro: filenames_ok_step)
  from st have "files \<sigma>2 p = fs p"
  proof (cases rule: handle_line_Inr_cases)
    case (is_record t r)
    with l have "t \<in> set (record_streams ls)" by (force simp: record_streams_def)
    from ne [OF this] have "staging_filename e t \<noteq> p" .
    moreover obtain ln where "files \<sigma>2 = append_text (files \<sigma>1) (staging_filename e t) ln"
      using files_persist_record [of e \<sigma>1 t r] is_record p by (auto simp: record_file_ok)
    ultimately show ?thesis using p by (simp add: append_text_other)
  qed (use p in auto)
  with ok' show "filenames_ok e \<sigma>2 \<and> files \<sigma>2 p = fs p" by simp
qed (simp add: filenames_ok_initial, simp add: initial_state_def)

subsection \<open>Evaluation of concrete runs\<close>

lemmas model_defs =
  persist_messages_def initial_state_def handle_line_def persist_record_def validation_def
  reconcile_def file_is_empty_def od_set_all_def od_set_def staging_filename_def
  record_to_load_def dict_to_list_def append_text_def count_record_def counter_value_def
  get_delimiter_def get_quotechar_def print_metric_def main_def emit_state_def Let_def

lemmas demo_defs = demo_env_def demo_validate_def users_run_def narrowing_run_def orders_schema_def
  unlisted_column_run_def resumed_files_def newline_run_def

text \<open>One record with a line feed in a value: two lines below the header line.\<close>

lemma newline_value_two_lines:
  "\<exists>\<sigma>. persist_messages (demo_env None) Map.empty newline_run = Inr (None, \<sigma>) \<and>
       files \<sigma> ''/tmp/users-T.csv'' = Some [''id,note'', ''1,one'', ''two''] \<and>
       record_counter \<sigma> = [(''users'', 1)]"
  by (simp add: model_defs demo_defs)

lemma users_run_result:
  "\<exists>\<sigma>. persist_messages (demo_env None) Map.empty users_run = Inr (Some ''{bookmark: 2}'', \<sigma>)"
  by (simp add: model_defs demo_defs)

section \<open>The claims\<close>


text \<open>
  C1. For every sequence of RECORD messages processed for one stream whose staging file is
  empty or does not exist at the start, the final header set of the stream is the ordered
  union, in first-seen order, of the flattened keys of all those records, and has no
  duplicate column. Messages of other streams may be interleaved, as long as none of their
  RECORD messages is written to the staging file of this stream. The union the code takes
  at each record, \<open>od_set_all\<close>, keeps the left operand as it is and appends the new
  entries of the right operand in the order of their first occurrence there.
\<close>

theorem final_header_set_first_seen:
  assumes run: "persist_messages e fs ls = Inr (st, \<sigma>)"
    and empty: "file_is_empty fs (staging_filename e s)"
    and na: "\<And>t. t \<in> set (record_streams ls) \<Longrightarrow> staging_filename e t = staging_filename e s \<Longrightarrow> t = s"
  shows "header_set \<sigma> s = first_seen (stream_keys e s ls) \<and> distinct (header_set \<sigma> s) \<and>
         od_set_all h ks = h @ first_seen (filter (\<lambda>k. k \<notin> set h) ks)"
proof -
  from run obtain \<sigma>1 \<sigma>2 where loop: "message_loop e (initial_state fs) ls = Inr \<sigma>1"
    and fin: "add_headers (filenames \<sigma>1) \<sigma>1 = Inr \<sigma>2"
    and sg: "\<sigma> = \<sigma>2\<lparr>uploaded := map snd (filenames \<sigma>2),
                  logged := logged \<sigma>2 @ map (\<lambda>s. print_metric (record_counter \<sigma>2) s) (map fst (record_counter \<sigma>2))\<rparr>"
    by (rule persist_messages_Inr)
  have "keys_inv e s (initial_state fs) []"
    using empty by (simp add: keys_inv_def filenames_ok_initial) (simp add: initial_state_def)
  from keys_inv_loop [OF loop this na]
  have "keys_inv e s \<sigma>1 (stream_keys e s ls)" by simp
  then have "header_set \<sigma>1 s = first_seen (stream_keys e s ls)"
    by (auto simp: keys_inv_def header_set_def)
  moreover have "headers \<sigma> = headers \<sigma>1"
    using add_headers_frame [OF fin] sg by simp
  ultimately show ?thesis by (simp add: header_set_def distinct_first_seen od_set_all_eq)
qed

theorem final_header_set_first_seen_witness:
  "\<exists>st \<sigma>. persist_messages (demo_env None) Map.empty users_run = Inr (st, \<sigma>) \<and>
      header_set \<sigma> ''users'' = [''id'', ''name'', ''email'']"
proof -
  obtain st \<sigma> where run: "persist_messages (demo_env None) Map.empty users_run = Inr (st, \<sigma>)"
    using users_run_result by blast
  have empty: "file_is_empty Map.empty (staging_filename (demo_env None) ''users'')"
    by (simp add: file_is_empty_def)
  have na: "t = ''users''" if "t \<in> set (record_streams users_run)" for t
    using that by (simp add: record_streams_def users_run_def)
  have "header_set \<sigma> ''users'' = first_seen (stream_keys (demo_env None) ''users'' users_run)"
    using final_header_set_first_seen [OF run empty na] by simp
  also have "\<dots> = [''id'', ''name'', ''email'']"
    by (simp add: stream_keys_def users_run_def demo_env_def record_to_load_def)
  finally show ?thesis using run by blast
qed

text \<open>
  C2. The finalizer is claimed to write, as first line, the final header set joined by the
  configured field delimiter. The code joins with a comma whatever the configuration says
  (line 179), while the rows below are written, and a header line found in an existing
  file is read, with the configured delimiter (lines 112 to 114 and 140 to 144). With the
  delimiter set to a semicolon, the first example of the specification gives a header line
  \<open>id,name,email\<close> above rows that are separated by semicolons; the claim asks for
  \<open>id;name;email\<close>. The rows themselves are kept unchanged and in order.
\<close>

theorem header_line_ignores_delimiter:
  "\<exists>\<sigma>. persist_messages (demo_env (Some '';'')) Map.empty users_run = Inr (Some ''{bookmark: 2}'', \<sigma>) \<and>
       files \<sigma> ''/tmp/users-T.csv'' = Some [''id,name,email'', ''1;a'', ''2;b;x''] \<and>
       join (get_delimiter (config (demo_env (Some '';'')))) (header_set \<sigma> ''users'') = ''id;name;email''"
  by (simp add: model_defs demo_defs header_set_def)

text \<open>
  C3. A RECORD message for a stream that no earlier SCHEMA message names makes the run fail:
  \<open>persist_messages\<close> raises, and \<open>main\<close> writes no state line. The input is read
  line by line, so the message arrives exactly when the loop has handled the lines before it
  without an exception; then the exception is the one for a record before its schema, and
  the run state is the one the earlier messages left: the loop halts at once, and nothing of
  the record or of the messages after it is processed.
\<close>

theorem record_before_schema_fails:
  assumes nos: "s \<notin> set (schema_streams pre)"
  shows "(\<exists>err. persist_messages e fs (pre @ Parsed (RECORD s r) # post) = Inl err) \<and>
         snd (main e fs (pre @ Parsed (RECORD s r) # post)) = [] \<and>
         (message_loop e (initial_state fs) pre = Inr \<sigma> \<longrightarrow>
            persist_messages e fs (pre @ Parsed (RECORD s r) # post) = Inl (Record_before_schema s, \<sigma>))"
proof -
  let ?ms = "pre @ Parsed (RECORD s r) # post"
  have reached: "persist_messages e fs ?ms = Inl (Record_before_schema s, \<sigma>1)"
    if "message_loop e (initial_state fs) pre = Inr \<sigma>1" for \<sigma>1
  proof -
    from schemas_untouched [OF that nos] have "schemas \<sigma>1 s = None"
      by (simp add: initial_state_def)
    then show ?thesis
      using that by (simp add: persist_messages_def message_loop_append handle_line_def)
  qed
  have fails: "\<exists>err. persist_messages e fs ?ms = Inl err"
  proof (cases "message_loop e (initial_state fs) pre")
    case (Inl err)
    then show ?thesis by (simp add: persist_messages_def message_loop_append)
  next
    case (Inr \<sigma>1)
    from reached [OF this] show ?thesis by blast
  qed
  then have "snd (main e fs ?ms) = []"
    by (auto simp: main_def split: prod.splits)
  with fails reached show ?thesis by blast
qed

theorem record_before_schema_fails_witness:
  "\<exists>\<sigma>. message_loop (demo_env None) (initial_state Map.empty) orders_schema = Inr \<sigma> \<and>
       persist_messages (demo_env None) Map.empty
         (orders_schema @ Parsed (RECORD ''users'' [(''id'', ''1'')]) # [Parsed (STATE (Some ''s1''))])
         = Inl (Record_before_schema ''users'', \<sigma>) \<and>
       snd (main (demo_env None) Map.empty
         (orders_schema @ Parsed (RECORD ''users'' [(''id'', ''1'')]) # [Parsed (STATE (Some ''s1''))])) = []"
proof -
  have nos: "''users'' \<notin> set (schema_streams orders_schema)"
    by (simp add: schema_streams_def orders_schema_def)
  have "\<exists>\<sigma>. message_loop (demo_env None) (initial_state Map.empty) orders_schema = Inr \<sigma>"
    by (simp add: model_defs demo_defs)
  then obtain \<sigma> where reach: "message_loop (demo_env None) (initial_state Map.empty) orders_schema = Inr \<sigma>"
    by blast
  from record_before_schema_fails [OF nos, of "demo_env None" Map.empty "[(''id'', ''1'')]"
      "[Parsed (STATE (Some ''s1''))]" \<sigma>] reach
  show ?thesis by blast
qed

text \<open>
  C4, as stated: a validation error other than the precision class is logged, and the record
  is still persisted. The code logs nothing for such an error: the \<open>except\<close> clause
  only acts on \<open>InvalidOperation\<close>. In the run below the record has a column its
  schema does not allow, the validator raises, the row is written, and the only logger call
  of the whole run is the metric at the end.
\<close>

theorem unlisted_column_not_logged:
  "validate (demo_env None) [''id'', ''name''] [(''id'', ''1''), (''nickname'', ''z'')] = Raises_other \<and>
   (\<exists>\<sigma>. persist_messages (demo_env None) Map.empty unlisted_column_run = Inr (None, \<sigma>) \<and>
        files \<sigma> ''/tmp/users-T.csv'' = Some [''id,nickname'', ''1,z''] \<and>
        logged \<sigma> = [Info_metric ''users'' (Some 1)])"
  by (simp add: model_defs demo_defs)

text \<open>
  C4, amended: for every RECORD message that the loop reaches and whose stream has a schema,
  a validation error other than the precision class is swallowed without any logger call,
  and the record is persisted as a valid one is: its row is appended to the staging file of
  the stream and the record counter of the stream goes up by one. A validation error of
  the precision class is logged and raised again: the run ends there with that exception,
  in the state the earlier messages left plus the log entry, and no state line is written.
\<close>

theorem advisory_validation:
  assumes reach: "message_loop e (initial_state fs) pre = Inr \<sigma>"
    and sch: "schemas \<sigma> s \<noteq> None"
  shows "(validation e \<sigma> s r = Raises_other \<longrightarrow>
            message_loop e (initial_state fs) (pre @ [Parsed (RECORD s r)]) = Inr (persist_record e \<sigma> s r) \<and>
            logged (persist_record e \<sigma> s r) = logged \<sigma> \<and>
            counter_value (record_counter (persist_record e \<sigma> s r)) s = counter_value (record_counter \<sigma>) s + 1 \<and>
            (\<exists>row. files (persist_record e \<sigma> s r) =
               append_text (files \<sigma>) (staging_filename e s) (row @ [CHR 0x0D, CHR 0x0A]))) \<and>
         (validation e \<sigma> s r = Raises_InvalidOperation \<longrightarrow>
            persist_messages e fs (pre @ Parsed (RECORD s r) # post) =
              Inl (InvalidOperation, \<sigma>\<lparr>logged := logged \<sigma> @ [Error_data_validation_failed]\<rparr>) \<and>
            snd (main e fs (pre @ Parsed (RECORD s r) # post)) = [])"
proof -
  from filenames_ok_reachable [OF reach] have ok: "filenames_ok e \<sigma>" .
  have row: "\<exists>row. files (persist_record e \<sigma> s r) =
               append_text (files \<sigma>) (staging_filename e s) (row @ [CHR 0x0D, CHR 0x0A])"
    using files_persist_record [of e \<sigma> s r] ok by (auto simp: record_file_ok)
  have adv: "message_loop e (initial_state fs) (pre @ [Parsed (RECORD s r)]) = Inr (persist_record e \<sigma> s r)"
    if "validation e \<sigma> s r = Raises_other"
    using that reach sch by (simp add: message_loop_append handle_line_def)
  have fatal: "persist_messages e fs (pre @ Parsed (RECORD s r) # post) =
              Inl (InvalidOperation, \<sigma>\<lparr>logged := logged \<sigma> @ [Error_data_validation_failed]\<rparr>)"
    if "validation e \<sigma> s r = Raises_InvalidOperation"
    using that reach sch by (simp add: persist_messages_def message_loop_append handle_line_def)
  have quiet: "snd (main e fs (pre @ Parsed (RECORD s r) # post)) = []"
    if "validation e \<sigma> s r = Raises_InvalidOperation"
    using fatal [OF that] by (simp add: main_def)
  from row adv fatal quiet show ?thesis
    by (simp add: other_persist_record counter_value_count_record)
qed

theorem advisory_validation_witness:
  "\<exists>\<sigma>. message_loop (demo_env None) (initial_state Map.empty) (take 1 users_run) = Inr \<sigma> \<and>
       message_loop (demo_env None) (initial_state Map.empty)
           (take 1 users_run @ [Parsed (RECORD ''users'' [(''id'', ''1''), (''nickname'', ''z'')])])
         = Inr (persist_record (demo_env None) \<sigma> ''users'' [(''id'', ''1''), (''nickname'', ''z'')]) \<and>
       logged (persist_record (demo_env None) \<sigma> ''users'' [(''id'', ''1''), (''nickname'', ''z'')]) = [] \<and>
       persist_messages (demo_env None) Map.empty
           (take 1 users_run @ Parsed (RECORD ''users'' [(''multipleOf'', ''1'')]) # [Parsed (STATE (Some ''s1''))])
         = Inl (InvalidOperation, \<sigma>\<lparr>logged := logged \<sigma> @ [Error_data_validation_failed]\<rparr>)"
proof -
  have "\<exists>\<sigma>. message_loop (demo_env None) (initial_state Map.empty) (take 1 users_run) = Inr \<sigma> \<and>
       schemas \<sigma> ''users'' \<noteq> None \<and> logged \<sigma> = [] \<and>
       validation (demo_env None) \<sigma> ''users'' [(''id'', ''1''), (''nickname'', ''z'')] = Raises_other \<and>
       validation (demo_env None) \<sigma> ''users'' [(''multipleOf'', ''1'')] = Raises_InvalidOperation"
    by (simp add: model_defs demo_defs)
  then obtain \<sigma> where reach: "message_loop (demo_env None) (initial_state Map.empty) (take 1 users_run) = Inr \<sigma>"
    and sch: "schemas \<sigma> ''users'' \<noteq> None" and lg: "logged \<sigma> = []"
    and v1: "validation (demo_env None) \<sigma> ''users'' [(''id'', ''1''), (''nickname'', ''z'')] = Raises_other"
    and v2: "validation (demo_env None) \<sigma> ''users'' [(''multipleOf'', ''1'')] = Raises_InvalidOperation"
    by blast
  from advisory_validation [OF reach sch, of "[(''id'', ''1''), (''nickname'', ''z'')]"] v1 lg
  have a: "message_loop (demo_env None) (initial_state Map.empty)
           (take 1 users_run @ [Parsed (RECORD ''users'' [(''id'', ''1''), (''nickname'', ''z'')])])
         = Inr (persist_record (demo_env None) \<sigma> ''users'' [(''id'', ''1''), (''nickname'', ''z'')])"
    and b: "logged (persist_record (demo_env None) \<sigma> ''users'' [(''id'', ''1''), (''nickname'', ''z'')]) = []"
    by simp_all
  from advisory_validation [OF reach sch, of "[(''multipleOf'', ''1'')]" "[Parsed (STATE (Some ''s1''))]"] v2
  have c: "persist_messages (demo_env None) Map.empty
           (take 1 users_run @ Parsed (RECORD ''users'' [(''multipleOf'', ''1'')]) # [Parsed (STATE (Some ''s1''))])
         = Inl (InvalidOperation, \<sigma>\<lparr>logged := logged \<sigma> @ [Error_data_validation_failed]\<rparr>)"
    by simp
  from reach a b c show ?thesis by blast
qed

text \<open>
  C5. When the input has at least one STATE message and \<open>persist_messages\<close> returns, the
  value it returns is the value of the last STATE message in arrival order, however many
  came before; \<open>main\<close> hands exactly that value to \<open>emit_state\<close>.
\<close>

theorem last_state_wins:
  assumes run: "persist_messages e fs ls = Inr (st, \<sigma>)"
    and some: "state_values ls \<noteq> []"
  shows "st = last (state_values ls) \<and>
         (validate_config e (config e) = [] \<longrightarrow>
            main e fs ls = (Exit_normally, emit_state e (last (state_values ls))))"
  using returned_state [OF run] some run by (simp add: main_def)

theorem last_state_wins_witness:
  "\<exists>\<sigma>. persist_messages (demo_env None) Map.empty (users_run @ [Parsed (STATE (Some ''{bookmark: 3}''))])
         = Inr (Some ''{bookmark: 3}'', \<sigma>) \<and>
       main (demo_env None) Map.empty (users_run @ [Parsed (STATE (Some ''{bookmark: 3}''))])
         = (Exit_normally, [''{bookmark: 3}''])"
proof -
  let ?ls = "users_run @ [Parsed (STATE (Some ''{bookmark: 3}''))]"
  have "\<exists>st \<sigma>. persist_messages (demo_env None) Map.empty ?ls = Inr (st, \<sigma>)"
    by (simp add: model_defs demo_defs)
  then obtain st \<sigma> where run: "persist_messages (demo_env None) Map.empty ?ls = Inr (st, \<sigma>)"
    by blast
  have vals: "state_values ?ls = [Some ''{bookmark: 2}'', Some ''{bookmark: 3}'']"
    by (simp add: state_values_def users_run_def)
  then have some: "state_values ?ls \<noteq> []" by simp
  have cfg: "validate_config (demo_env None) (config (demo_env None)) = []"
    by (simp add: demo_env_def)
  from last_state_wins [OF run some] run vals cfg show ?thesis
    by (simp add: emit_state_def demo_env_def)
qed

text \<open>
  C6. Header reconciliation is idempotent. In every state the loop can reach, processing a
  record whose flattened keys are all members of the header set of its stream leaves the
  header set as it is: nothing is reordered and nothing is duplicated. Processing the same
  record twice gives the header set that processing it once gives, and so does applying
  \<open>reconcile\<close> twice with the same flattened record, whatever the staging files hold.
\<close>

theorem reconcile_idempotent:
  assumes reach: "message_loop e (initial_state fs) ls = Inr \<sigma>"
    and hs: "headers \<sigma> s = Some h"
    and sub: "set (map fst (flatten_record e (record_to_load e r))) \<subseteq> set h"
  shows "headers (persist_record e \<sigma> s r) = headers \<sigma> \<and>
         headers (persist_record e (persist_record e \<sigma> s r') s r') = headers (persist_record e \<sigma> s r') \<and>
         reconcile e ((headers \<sigma>)(s \<mapsto> reconcile e (headers \<sigma>) fs1 s f1 fr)) fs2 s f2 fr
           = reconcile e (headers \<sigma>) fs1 s f1 fr"
proof -
  from headers_distinct_reachable [OF reach] hs have d: "distinct h"
    by (auto simp: headers_distinct_def)
  have one: "headers (persist_record e \<sigma> s r) = headers \<sigma>"
    using hs first_seen_subset [OF d sub]
    by (auto simp: headers_persist_record header_base_def flattened_def)
  have absorb: "first_seen (first_seen (b @ k) @ k) = first_seen (b @ k)" for b k :: "string list"
    by (rule first_seen_subset) (auto simp: distinct_first_seen set_first_seen)
  have two: "headers (persist_record e (persist_record e \<sigma> s r') s r') = headers (persist_record e \<sigma> s r')"
    by (simp add: headers_persist_record [of e "persist_record e \<sigma> s r'"] header_base_def)
       (simp add: headers_persist_record absorb)
  have three: "reconcile e ((headers \<sigma>)(s \<mapsto> reconcile e (headers \<sigma>) fs1 s f1 fr)) fs2 s f2 fr
           = reconcile e (headers \<sigma>) fs1 s f1 fr"
    by (simp add: reconcile_eq [of e "(headers \<sigma>)(s \<mapsto> x)" for x] header_base_def)
       (simp add: reconcile_eq absorb)
  from one two three show ?thesis by blast
qed

theorem reconcile_idempotent_witness:
  "\<exists>\<sigma>. message_loop (demo_env None) (initial_state Map.empty) users_run = Inr \<sigma> \<and>
       headers \<sigma> ''users'' = Some [''id'', ''name'', ''email''] \<and>
       headers (persist_record (demo_env None) \<sigma> ''users'' [(''email'', ''y''), (''id'', ''3'')]) = headers \<sigma>"
proof -
  have "\<exists>\<sigma>. message_loop (demo_env None) (initial_state Map.empty) users_run = Inr \<sigma> \<and>
       headers \<sigma> ''users'' = Some [''id'', ''name'', ''email'']"
    by (simp add: model_defs demo_defs)
  then obtain \<sigma> where reach: "message_loop (demo_env None) (initial_state Map.empty) users_run = Inr \<sigma>"
    and hs: "headers \<sigma> ''users'' = Some [''id'', ''name'', ''email'']" by blast
  have sub: "set (map fst (flatten_record (demo_env None)
               (record_to_load (demo_env None) [(''email'', ''y''), (''id'', ''3'')])))
             \<subseteq> set [''id'', ''name'', ''email'']"
    by (simp add: demo_env_def record_to_load_def)
  from reconcile_idempotent [OF reach hs sub] reach hs show ?thesis by blast
qed

text \<open>
  C7. The header set of a stream never shrinks. From every state the loop can reach, after
  any further messages the header set the stream had is a prefix of the header set it has:
  the old columns keep their places and new ones are added behind them. A SCHEMA message,
  also one that narrows the columns, leaves every header set as it is.
\<close>

theorem headers_never_shrink:
  assumes reach: "message_loop e (initial_state fs) pre = Inr \<sigma>"
    and later: "message_loop e \<sigma> post = Inr \<sigma>'"
    and hs: "headers \<sigma> s = Some h"
  shows "(\<exists>h'. headers \<sigma>' s = Some h' \<and> prefix h h') \<and>
         (\<exists>\<sigma>''. handle_line e \<sigma> (Parsed (SCHEMA t sch kp)) = Inr \<sigma>'' \<and> headers \<sigma>'' = headers \<sigma>)"
proof -
  have "\<exists>h'. headers \<sigma>' s = Some h' \<and> prefix h h'"
    by (rule headers_loop_prefix [OF later headers_distinct_reachable [OF reach] hs])
  moreover have "\<exists>\<sigma>''. handle_line e \<sigma> (Parsed (SCHEMA t sch kp)) = Inr \<sigma>'' \<and> headers \<sigma>'' = headers \<sigma>"
    by (simp add: handle_line_def)
  ultimately show ?thesis by blast
qed

theorem headers_never_shrink_witness:
  "\<exists>\<sigma> \<sigma>' h'. message_loop (demo_env None) (initial_state Map.empty) (take 3 users_run) = Inr \<sigma> \<and>
       message_loop (demo_env None) \<sigma> narrowing_run = Inr \<sigma>' \<and>
       headers \<sigma> ''users'' = Some [''id'', ''name'', ''email''] \<and>
       headers \<sigma>' ''users'' = Some h' \<and> prefix [''id'', ''name'', ''email''] h'"
proof -
  have "\<exists>\<sigma> \<sigma>'. message_loop (demo_env None) (initial_state Map.empty) (take 3 users_run) = Inr \<sigma> \<and>
       message_loop (demo_env None) \<sigma> narrowing_run = Inr \<sigma>' \<and>
       headers \<sigma> ''users'' = Some [''id'', ''name'', ''email'']"
    by (simp add: model_defs demo_defs)
  then obtain \<sigma> \<sigma>' where reach: "message_loop (demo_env None) (initial_state Map.empty) (take 3 users_run) = Inr \<sigma>"
    and later: "message_loop (demo_env None) \<sigma> narrowing_run = Inr \<sigma>'"
    and hs: "headers \<sigma> ''users'' = Some [''id'', ''name'', ''email'']" by blast
  from headers_never_shrink [OF reach later hs] reach later hs show ?thesis by blast
qed

text \<open>
  C8, as stated: for every stream, the finalized file has as many lines below the header
  line as RECORD messages were processed for the stream. The code appends to a staging file
  that already has content (lines 106 to 125 read its first row), and the finalizer keeps
  every line of it. Started on a file of two lines, the first example of the specification,
  with its two records and a counter of 2, ends with four lines below the header line.
\<close>

theorem resumed_file_row_count:
  "\<exists>\<sigma>. persist_messages (demo_env None) resumed_files users_run = Inr (Some ''{bookmark: 2}'', \<sigma>) \<and>
       files \<sigma> ''/tmp/users-T.csv'' = Some [''id,name,email'', ''id,name'', ''0,z'', ''1,a'', ''2,b,x''] \<and>
       record_counter \<sigma> = [(''users'', 2)] \<and>
       count_list (record_streams users_run) ''users'' = 2"
  by (simp add: model_defs demo_defs record_streams_def)

text \<open>
  C8, amended: take a stream that has at least one RECORD message, whose staging file is
  empty or does not exist when the run starts, whose staging file no other stream with
  records shares, and whose records have no line break (line feed or carriage return) in
  any flattened column name or value; the CSV writer is taken to put fields without a line
  break on one line. Then the file handed to the publisher is one header line followed by
  exactly as many lines as RECORD messages were processed for the stream, and that number
  is the record counter of the stream and the value of the metric reported for it. (A value
  with a line break makes its row take several lines, as \<open>newline_value_two_lines\<close>
  shows, and a column name with one does the same to the header.)
\<close>

theorem finalized_row_count:
  assumes run: "persist_messages e fs ls = Inr (st, \<sigma>)"
    and empty: "file_is_empty fs (staging_filename e s)"
    and na: "\<And>t. t \<in> set (record_streams ls) \<Longrightarrow> staging_filename e t = staging_filename e s \<Longrightarrow> t = s"
    and has: "s \<in> set (record_streams ls)"
    and csv: "\<And>fields. (\<And>f. f \<in> set fields \<Longrightarrow> no_break f) \<Longrightarrow>
              no_break (csv_row e (get_delimiter (config e)) (get_quotechar (config e)) fields)"
    and clean: "\<And>r k v. Parsed (RECORD s r) \<in> set ls \<Longrightarrow>
              (k, v) \<in> set (flatten_record e (record_to_load e r)) \<Longrightarrow> no_break k \<and> no_break v"
  shows "\<exists>rows. files \<sigma> (staging_filename e s) = Some (join '','' (header_set \<sigma> s) # rows) \<and>
           length rows = count_list (record_streams ls) s \<and>
           map_of (record_counter \<sigma>) s = Some (length rows) \<and>
           Info_metric s (Some (length rows)) \<in> set (logged \<sigma>)"
proof -
  from run obtain \<sigma>1 \<sigma>2 where loop: "message_loop e (initial_state fs) ls = Inr \<sigma>1"
    and fin: "add_headers (filenames \<sigma>1) \<sigma>1 = Inr \<sigma>2"
    and sg: "\<sigma> = \<sigma>2\<lparr>uploaded := map snd (filenames \<sigma>2),
                  logged := logged \<sigma>2 @ map (\<lambda>s. print_metric (record_counter \<sigma>2) s) (map fst (record_counter \<sigma>2))\<rparr>"
    by (rule persist_messages_Inr)
  let ?n = "count_list (record_streams ls) s"
  let ?p = "staging_filename e s"
  from has have pos: "0 < ?n" using count_list_0_iff [of "record_streams ls" s] by simp
  have one: "no_break (csv_row e (get_delimiter (config e)) (get_quotechar (config e))
                (dict_to_list h (flattened e r)))"
    if r: "Parsed (RECORD s r) \<in> set ls" for r h
  proof (rule csv)
    fix f
    assume "f \<in> set (dict_to_list h (flattened e r))"
    then show "no_break f"
      by (rule no_break_dict_to_list [rotated]) (use clean [OF r] in \<open>simp add: flattened_def\<close>)
  qed
  from rows_inv_loop [OF loop rows_inv_initial [OF empty] na one]
  have inv: "rows_inv e s \<sigma>1 ?n" by simp
  from inv pos have ok: "filenames_ok e \<sigma>1" and dist: "distinct (map fst (filenames \<sigma>1))"
    and len: "length (lines_of (files \<sigma>1) ?p) = ?n"
    and key: "s \<in> fst ` set (filenames \<sigma>1)"
    and cnt: "map_of (record_counter \<sigma>1) s = Some ?n"
    by (simp_all add: rows_inv_def)
  from key obtain m where m: "(s, m) \<in> set (filenames \<sigma>1)" by force
  with ok have fm: "filename m = ?p" by (auto simp: filenames_ok_def)
  have only: "t = s" if "(t, m') \<in> set (filenames \<sigma>1)" "filename m' = filename m" for t m'
  proof -
    from that(1) ok have a: "filename m' = staging_filename e t" by (auto simp: filenames_ok_def)
    from that(1) filenames_keys_loop [OF loop] have tin: "t \<in> set (record_streams ls)" by force
    have "staging_filename e t = filename m'" by (rule a [symmetric])
    also have "\<dots> = filename m" by (rule that(2))
    also have "\<dots> = staging_filename e s" by (rule fm)
    finally show ?thesis by (rule na [OF tin])
  qed
  have "\<exists>h d. headers \<sigma>1 s = Some h \<and> files \<sigma>1 (filename m) = Some d \<and>
         files \<sigma>2 (filename m) = Some (split_text (join '','' h @ [CHR 0x0A]) @ d)"
  proof (rule add_headers_own_file [OF fin dist m])
    fix t m'
    assume "(t, m') \<in> set (filenames \<sigma>1)" "filename m' = filename m"
    then show "t = s" by (rule only)
  qed
  then obtain h d where h: "headers \<sigma>1 s = Some h" and d: "files \<sigma>1 ?p = Some d"
    and f2: "files \<sigma>2 ?p = Some (split_text (join '','' h @ [CHR 0x0A]) @ d)" unfolding fm by blast
  from h header_set_loop [OF loop empty na] have hk: "h = first_seen (stream_keys e s ls)"
    by (simp add: header_set_def)
  have "no_break (join '','' h)"
  proof (rule no_break_join)
    show "no_break '',''" by (simp add: no_break_def)
  next
    fix k
    assume "k \<in> set h"
    with hk have "k \<in> set (stream_keys e s ls)" by (simp add: set_first_seen)
    from stream_keys_member [OF this] obtain r v where "Parsed (RECORD s r) \<in> set ls"
      and "(k, v) \<in> set (flatten_record e (record_to_load e r))" by auto
    then show "no_break k" using clean by blast
  qed
  then have hl: "split_text (join '','' h @ [CHR 0x0A]) = [join '','' h]" by (rule split_text_lf)
  from add_headers_frame [OF fin] have fr: "headers \<sigma>2 = headers \<sigma>1"
    "record_counter \<sigma>2 = record_counter \<sigma>1" by simp_all
  from d len have ld: "length d = ?n" by (simp add: lines_of_def)
  have lg: "logged \<sigma> = logged \<sigma>2 @ map (print_metric (record_counter \<sigma>1)) (map fst (record_counter \<sigma>1))"
    by (simp add: sg fr)
  have rc: "record_counter \<sigma> = record_counter \<sigma>1" by (simp add: sg fr)
  have fl: "files \<sigma> = files \<sigma>2" by (simp add: sg)
  have hd: "header_set \<sigma> s = h" using h by (simp add: sg fr header_set_def)
  from cnt have "(s, ?n) \<in> set (record_counter \<sigma>1)" by (rule map_of_SomeD)
  then have "s \<in> set (map fst (record_counter \<sigma>1))" by force
  then have "print_metric (record_counter \<sigma>1) s \<in> set (logged \<sigma>)"
    unfolding lg by force
  then have met: "Info_metric s (Some ?n) \<in> set (logged \<sigma>)"
    by (simp add: print_metric_def cnt)
  have "files \<sigma> ?p = Some (join '','' (header_set \<sigma> s) # d)"
    by (simp add: fl f2 hd hl)
  moreover have "map_of (record_counter \<sigma>) s = Some (length d)"
    by (simp add: rc cnt ld)
  moreover have "Info_metric s (Some (length d)) \<in> set (logged \<sigma>)"
    using met by (simp add: ld)
  ultimately show ?thesis using ld by blast
qed

theorem finalized_row_count_witness:
  "\<exists>st \<sigma> rows. persist_messages (demo_env None) Map.empty users_run = Inr (st, \<sigma>) \<and>
       files \<sigma> ''/tmp/users-T.csv'' = Some (''id,name,email'' # rows) \<and> length rows = 2 \<and>
       map_of (record_counter \<sigma>) ''users'' = Some 2 \<and>
       Info_metric ''users'' (Some 2) \<in> set (logged \<sigma>)"
proof -
  have "\<exists>st \<sigma>. persist_messages (demo_env None) Map.empty users_run = Inr (st, \<sigma>) \<and>
          header_set \<sigma> ''users'' = [''id'', ''name'', ''email'']"
    by (simp add: model_defs demo_defs header_set_def)
  then obtain st \<sigma> where run: "persist_messages (demo_env None) Map.empty users_run = Inr (st, \<sigma>)"
    and hs: "header_set \<sigma> ''users'' = [''id'', ''name'', ''email'']" by blast
  have empty: "file_is_empty Map.empty (staging_filename (demo_env None) ''users'')"
    by (simp add: file_is_empty_def)
  have streams: "record_streams users_run = [''users'', ''users'']"
    by (simp add: record_streams_def users_run_def)
  have na: "t = ''users''" if "t \<in> set (record_streams users_run)" for t
    using that by (simp add: streams)
  have has: "''users'' \<in> set (record_streams users_run)" by (simp add: streams)
  have path: "staging_filename (demo_env None) ''users'' = ''/tmp/users-T.csv''"
    by (simp add: staging_filename_def demo_env_def)
  have csv: "no_break (csv_row (demo_env None) (get_delimiter (config (demo_env None)))
                (get_quotechar (config (demo_env None))) fields)"
    if "\<And>f. f \<in> set fields \<Longrightarrow> no_break f" for fields
    using no_break_join [of "'',''" fields] that
    by (simp add: demo_env_def get_delimiter_def no_break_def)
  have clean: "no_break k \<and> no_break v"
    if "Parsed (RECORD ''users'' r) \<in> set users_run"
      "(k, v) \<in> set (flatten_record (demo_env None) (record_to_load (demo_env None) r))" for r k v
    using that by (auto simp: users_run_def demo_env_def record_to_load_def no_break_def)
  have "\<exists>rows. files \<sigma> (staging_filename (demo_env None) ''users'')
        = Some (join '','' (header_set \<sigma> ''users'') # rows) \<and>
      length rows = count_list (record_streams users_run) ''users'' \<and>
      map_of (record_counter \<sigma>) ''users'' = Some (length rows) \<and>
      Info_metric ''users'' (Some (length rows)) \<in> set (logged \<sigma>)"
  proof (rule finalized_row_count [OF run empty _ has])
    fix t
    assume "t \<in> set (record_streams users_run)"
    then show "t = ''users''" by (rule na)
  next
    fix fields
    assume "\<And>f. f \<in> set fields \<Longrightarrow> no_break f"
    then show "no_break (csv_row (demo_env None) (get_delimiter (config (demo_env None)))
                (get_quotechar (config (demo_env None))) fields)" by (rule csv)
  next
    fix r k v
    assume "Parsed (RECORD ''users'' r) \<in> set users_run"
      "(k, v) \<in> set (flatten_record (demo_env None) (record_to_load (demo_env None) r))"
    then show "no_break k \<and> no_break v" by (rule clean)
  qed
  then obtain rows where "files \<sigma> (staging_filename (demo_env None) ''users'')
        = Some (join '','' (header_set \<sigma> ''users'') # rows)"
    and "length rows = count_list (record_streams users_run) ''users''"
    and "map_of (record_counter \<sigma>) ''users'' = Some (length rows)"
    and "Info_metric ''users'' (Some (length rows)) \<in> set (logged \<sigma>)"
    by blast
  then have "files \<sigma> ''/tmp/users-T.csv'' = Some (''id,name,email'' # rows) \<and> length rows = 2 \<and>
       map_of (record_counter \<sigma>) ''users'' = Some 2 \<and>
       Info_metric ''users'' (Some 2) \<in> set (logged \<sigma>)"
    by (simp add: streams path hs numeral_2_eq_2)
  with run show ?thesis by blast
qed

text \<open>
  C9. \<open>main\<close> writes at most one line to standard output. It writes none when the input
  has no STATE message and none when the last STATE message carries a null value; a line
  that is written is the JSON text of the non-null value of the last STATE message.
\<close>

theorem state_emitted_at_most_once:
  "length (snd (main e fs ls)) \<le> 1 \<and>
   (state_values ls = [] \<longrightarrow> snd (main e fs ls) = []) \<and>
   (state_values ls \<noteq> [] \<and> last (state_values ls) = None \<longrightarrow> snd (main e fs ls) = []) \<and>
   (\<forall>out \<in> set (snd (main e fs ls)).
      \<exists>v. state_values ls \<noteq> [] \<and> last (state_values ls) = Some v \<and> out = json_dumps e v)"
proof (cases "validate_config e (config e) = []")
  case False
  then show ?thesis by (simp add: main_def)
next
  case True
  show ?thesis
  proof (cases "persist_messages e fs ls")
    case (Inl err)
    with True show ?thesis by (simp add: main_def split: prod.splits)
  next
    case (Inr res)
    obtain st \<sigma> where res: "res = (st, \<sigma>)" by (cases res)
    from returned_state [of e fs ls st \<sigma>] Inr res have "st = last (None # state_values ls)" by simp
    with True Inr res show ?thesis
      by (auto simp: main_def emit_state_def split: option.splits)
  qed
qed

theorem state_emitted_at_most_once_witness:
  "snd (main (demo_env None) Map.empty (users_run @ [Parsed (STATE None)])) = [] \<and>
   snd (main (demo_env None) Map.empty (take 3 users_run)) = [] \<and>
   snd (main (demo_env None) Map.empty users_run) = [''{bookmark: 2}'']"
proof -
  have a: "state_values (users_run @ [Parsed (STATE None)]) = [Some ''{bookmark: 2}'', None]"
    by (simp add: state_values_def users_run_def)
  have b: "state_values (take 3 users_run) = ([] :: string option list)"
    by (simp add: state_values_def users_run_def)
  have c: "snd (main (demo_env None) Map.empty users_run) = [''{bookmark: 2}'']"
    by (simp add: model_defs demo_defs)
  from state_emitted_at_most_once [of "demo_env None" Map.empty "users_run @ [Parsed (STATE None)]"] a
  have "snd (main (demo_env None) Map.empty (users_run @ [Parsed (STATE None)])) = []" by simp
  moreover from state_emitted_at_most_once [of "demo_env None" Map.empty "take 3 users_run"] b
  have "snd (main (demo_env None) Map.empty (take 3 users_run)) = []" by simp
  ultimately show ?thesis using c by simp
qed

text \<open>
  C10. For a stream without any RECORD message in the input, however many SCHEMA, STATE or
  ACTIVATE_VERSION messages there are: \<open>filenames\<close> has no entry for it, so the finalizer
  and the publisher, which go through \<open>filenames\<close>, handle no file for it; it has no
  header set and no record counter; no metric is reported for it; and its staging path holds
  what it held before the run, provided no stream with records uses the same path. A SCHEMA
  message changes \<open>schemas\<close>, \<open>validators\<close> and \<open>key_properties\<close> and nothing else.
\<close>

theorem schema_only_stream_untouched:
  assumes run: "persist_messages e fs ls = Inr (st, \<sigma>)"
    and norec: "s \<notin> set (record_streams ls)"
  shows "s \<notin> fst ` set (filenames \<sigma>) \<and> uploaded \<sigma> = map snd (filenames \<sigma>) \<and>
         headers \<sigma> s = None \<and> s \<notin> fst ` set (record_counter \<sigma>) \<and>
         (\<forall>n. Info_metric s n \<notin> set (logged \<sigma>)) \<and>
         ((\<forall>t \<in> set (record_streams ls). staging_filename e t \<noteq> staging_filename e s) \<longrightarrow>
            files \<sigma> (staging_filename e s) = fs (staging_filename e s)) \<and>
         handle_line e \<sigma>0 (Parsed (SCHEMA t sch kp)) =
           Inr (\<sigma>0\<lparr>schemas := (schemas \<sigma>0)(t \<mapsto>
                      (if add_metadata_columns (config e) then add_metadata_columns_to_schema e t sch kp else sch)),
                    validators := (validators \<sigma>0)(t \<mapsto> sch),
                    key_properties := (key_properties \<sigma>0)(t \<mapsto> kp)\<rparr>)"
proof -
  from run obtain \<sigma>1 \<sigma>2 where loop: "message_loop e (initial_state fs) ls = Inr \<sigma>1"
    and fin: "add_headers (filenames \<sigma>1) \<sigma>1 = Inr \<sigma>2"
    and sg: "\<sigma> = \<sigma>2\<lparr>uploaded := map snd (filenames \<sigma>2),
                  logged := logged \<sigma>2 @ map (\<lambda>s. print_metric (record_counter \<sigma>2) s) (map fst (record_counter \<sigma>2))\<rparr>"
    by (rule persist_messages_Inr)
  note fr = add_headers_frame [OF fin]
  from untouched_loop [OF loop norec] have u: "untouched s \<sigma>1" .
  from u fr have a: "s \<notin> fst ` set (filenames \<sigma>)" "headers \<sigma> s = None"
    "s \<notin> fst ` set (record_counter \<sigma>)" "uploaded \<sigma> = map snd (filenames \<sigma>)"
    by (simp_all add: sg untouched_def)
  from u fr have b: "Info_metric s n \<notin> set (logged \<sigma>)" for n
    by (auto simp: sg untouched_def print_metric_def)
  have c: "files \<sigma> (staging_filename e s) = fs (staging_filename e s)"
    if ne: "\<forall>t \<in> set (record_streams ls). staging_filename e t \<noteq> staging_filename e s"
  proof -
    from other_files_loop [OF loop, of "staging_filename e s"] ne
    have ok: "filenames_ok e \<sigma>1" and same: "files \<sigma>1 (staging_filename e s) = fs (staging_filename e s)"
      by auto
    have "staging_filename e s \<notin> (\<lambda>(t, m). filename m) ` set (filenames \<sigma>1)"
    proof
      assume "staging_filename e s \<in> (\<lambda>(t, m). filename m) ` set (filenames \<sigma>1)"
      then obtain t m where tm: "(t, m) \<in> set (filenames \<sigma>1)" and f: "filename m = staging_filename e s"
        by auto
      from tm ok have a: "filename m = staging_filename e t" by (auto simp: filenames_ok_def)
      from tm filenames_keys_loop [OF loop] have tin: "t \<in> set (record_streams ls)" by force
      have "staging_filename e t = filename m" by (rule a [symmetric])
      also have "\<dots> = staging_filename e s" by (rule f)
      finally show False using ne tin by blast
    qed
    from add_headers_other_file [OF fin this] same show ?thesis by (simp add: sg)
  qed
  have d: "handle_line e \<sigma>0 (Parsed (SCHEMA t sch kp)) =
           Inr (\<sigma>0\<lparr>schemas := (schemas \<sigma>0)(t \<mapsto>
                      (if add_metadata_columns (config e) then add_metadata_columns_to_schema e t sch kp else sch)),
                    validators := (validators \<sigma>0)(t \<mapsto> sch),
                    key_properties := (key_properties \<sigma>0)(t \<mapsto> kp)\<rparr>)"
    by (simp add: handle_line_def)
  from a b c d show ?thesis by blast
qed

theorem schema_only_stream_untouched_witness:
  "\<exists>st \<sigma>. persist_messages (demo_env None) resumed_files (orders_schema @ users_run) = Inr (st, \<sigma>) \<and>
       ''orders'' \<notin> fst ` set (filenames \<sigma>) \<and>
       uploaded \<sigma> = [\<lparr>filename = ''/tmp/users-T.csv'', target_key = ''users.csv''\<rparr>] \<and>
       headers \<sigma> ''orders'' = None \<and>
       files \<sigma> ''/tmp/orders-T.csv'' = None"
proof -
  have "\<exists>st \<sigma>. persist_messages (demo_env None) resumed_files (orders_schema @ users_run) = Inr (st, \<sigma>) \<and>
          filenames \<sigma> = [(''users'', \<lparr>filename = ''/tmp/users-T.csv'', target_key = ''users.csv''\<rparr>)]"
    by (simp add: model_defs demo_defs)
  then obtain st \<sigma> where run: "persist_messages (demo_env None) resumed_files (orders_schema @ users_run) = Inr (st, \<sigma>)"
    and fns: "filenames \<sigma> = [(''users'', \<lparr>filename = ''/tmp/users-T.csv'', target_key = ''users.csv''\<rparr>)]"
    by blast
  have streams: "record_streams (orders_schema @ users_run) = [''users'', ''users'']"
    by (simp add: record_streams_def users_run_def orders_schema_def)
  have norec: "''orders'' \<notin> set (record_streams (orders_schema @ users_run))"
    by (simp add: streams)
  have other: "\<forall>t \<in> set (record_streams (orders_schema @ users_run)).
      staging_filename (demo_env None) t \<noteq> staging_filename (demo_env None) ''orders''"
    by (simp add: streams staging_filename_def demo_env_def)
  have path: "staging_filename (demo_env None) ''orders'' = ''/tmp/orders-T.csv''"
    by (simp add: staging_filename_def demo_env_def)
  from schema_only_stream_untouched [OF run norec] other run fns show ?thesis
    by (simp add: path resumed_files_def)
qed

end
